theory Spec2Isabelle
  imports Main "HOL-Library.Signed_Division" "HOL-Library.Multiset"
begin

section \<open>AbstractJob (abstractjob.h, abstractjob.cpp)\<close>

text \<open>
  Job objects are shared through \<open>QSharedPointer\<close>: the manager's job table, the
  workers and the dependency lists of other jobs all point to the same object. The
  model keeps every job object in a store, addressed by a natural number, and a pointer
  to a job is its address. The members of \<open>AbstractJob\<close> are the fields of a record;
  the members a derived class adds are the record's extension, so every function below
  works on \<open>'a AbstractJob_scheme\<close>. The thread affinity (\<open>m_pThread\<close>,
  \<open>release()\<close>, \<open>moveToThread\<close>) has no effect on the members and is left out.
  \<open>int\<close> members are unbounded integers: no counter of the library gets near
  \<open>2^31\<close> before the job table itself would.
\<close>

record AbstractJob =
  m_qsName :: string
  m_bStop :: bool
  m_bFinished :: bool
  m_vspDependency :: "nat list"
  m_iError :: int
  m_bSpawned :: bool

type_synonym 'a heap = "nat \<Rightarrow> 'a AbstractJob_scheme"

text \<open>The signals of a job; \<open>exec()\<close> emits them.\<close>

datatype JobSignal = job_signalFinished | job_signalStopped | job_signalError

text \<open>The constructor \<open>AbstractJob(QString qsName)\<close>.\<close>

definition AbstractJob_new :: "string \<Rightarrow> AbstractJob" where
  "AbstractJob_new qsName =
     \<lparr>m_qsName = qsName, m_bStop = False, m_bFinished = False,
      m_vspDependency = [], m_iError = 0, m_bSpawned = False\<rparr>"

definition isStopped :: "'a AbstractJob_scheme \<Rightarrow> bool" where
  "isStopped j = m_bStop j"

definition isError :: "'a AbstractJob_scheme \<Rightarrow> bool" where
  "isError j = (m_iError j \<noteq> 0)"

definition errorCode :: "'a AbstractJob_scheme \<Rightarrow> int" where
  "errorCode j = m_iError j"

definition isSpawned :: "'a AbstractJob_scheme \<Rightarrow> bool" where
  "isSpawned j = m_bSpawned j"

definition isFinished :: "'a AbstractJob_scheme \<Rightarrow> bool" where
  "isFinished j = m_bFinished j"

definition dependencyCount :: "'a AbstractJob_scheme \<Rightarrow> int" where
  "dependencyCount j = int (length (m_vspDependency j))"

definition setSpawned :: "'a AbstractJob_scheme \<Rightarrow> 'a AbstractJob_scheme" where
  "setSpawned j = j\<lparr>m_bSpawned := True\<rparr>"

definition reportError :: "int \<Rightarrow> 'a AbstractJob_scheme \<Rightarrow> 'a AbstractJob_scheme" where
  "reportError iErr j = j\<lparr>m_iError := iErr\<rparr>"

text \<open>\<open>AbstractJob::stop()\<close>: sets the stop flag.\<close>

definition job_stop :: "'a AbstractJob_scheme \<Rightarrow> 'a AbstractJob_scheme" where
  "job_stop j = j\<lparr>m_bStop := True\<rparr>"

text \<open>
  \<open>addDependency(spJob)\<close> on the job at address \<open>this\<close>; a null pointer
  (\<open>None\<close>) is ignored.
\<close>

definition addDependency :: "nat option \<Rightarrow> 'a heap \<Rightarrow> nat \<Rightarrow> 'a heap" where
  "addDependency spJob h this =
     (case spJob of
        None \<Rightarrow> h
      | Some d \<Rightarrow> h(this := (h this)\<lparr>m_vspDependency := m_vspDependency (h this) @ [d]\<rparr>))"

text \<open>
  \<open>AbstractJob::canStart()\<close>. The loop
  \<^verbatim>\<open>while ((m_vspDependency.count() > 0) && (m_vspDependency.first()->isFinished() == true))
      m_vspDependency.removeFirst();\<close>
  reads the finished flag of the first dependency through its pointer and removes the
  entry from the (mutable) list of the job itself; it runs on the store, so that a job
  that depends on itself is read as the code reads it.
\<close>

function canStart_loop :: "'a heap \<Rightarrow> nat \<Rightarrow> 'a heap" where
  "canStart_loop h this =
     (case m_vspDependency (h this) of
        [] \<Rightarrow> h
      | d # ds \<Rightarrow>
          if isFinished (h d)
          then canStart_loop (h(this := (h this)\<lparr>m_vspDependency := ds\<rparr>)) this
          else h)"
  by pat_completeness auto
termination
  by (relation "measure (\<lambda>(h, this). length (m_vspDependency (h this)))") auto

definition canStart :: "'a heap \<Rightarrow> nat \<Rightarrow> bool \<times> 'a heap" where
  "canStart h this =
     (let h' = canStart_loop h this
      in (m_vspDependency (h' this) = [], h'))"

text \<open>\<open>AbstractJob::cleanup()\<close>.\<close>

definition cleanup :: "'a AbstractJob_scheme \<Rightarrow> 'a AbstractJob_scheme" where
  "cleanup j =
     (if m_iError j = 0 \<and> m_bStop j = False then j\<lparr>m_bFinished := True\<rparr> else j)"

text \<open>
  \<open>AbstractJob::exec()\<close>. The pure virtual \<open>process()\<close> is a parameter: any
  function on the job object (it may call \<open>reportError\<close>, observe or set the stop
  flag, and touch the protected members). The result is the job after the call and
  the list of the signals emitted, in order.
\<close>

definition exec ::
  "('a AbstractJob_scheme \<Rightarrow> 'a AbstractJob_scheme) \<Rightarrow> 'a AbstractJob_scheme
     \<Rightarrow> 'a AbstractJob_scheme \<times> JobSignal list" where
  "exec process j =
     (let j1 = j\<lparr>m_bStop := False\<rparr>;
          j2 = j1\<lparr>m_iError := 0\<rparr>;
          j3 = process j2
      in if m_iError j3 \<noteq> 0 then (j3, [job_signalError])
         else if m_bStop j3 = True then (j3, [job_signalStopped])
         else (j3, [job_signalFinished]))"

section \<open>Thread (thread.h, thread.cpp)\<close>

text \<open>
  A worker. \<open>Thread::start(iJobIndex, spJob)\<close> stores the index and the pointer
  and starts the thread, on which the job's \<open>exec()\<close> then runs. The constructor
  sets the index to \<open>-1\<close>; no code of the library sets it back after a job.
\<close>

record Thread =
  m_iJobIndex :: int
  m_spJob :: "nat option"

definition Thread_new :: Thread where
  "Thread_new = \<lparr>m_iJobIndex = - 1, m_spJob = None\<rparr>"

definition jobIndex :: "Thread \<Rightarrow> int" where
  "jobIndex t = m_iJobIndex t"

definition Thread_start :: "int \<Rightarrow> nat option \<Rightarrow> Thread \<Rightarrow> Thread" where
  "Thread_start iJobIndex spJob t = t\<lparr>m_iJobIndex := iJobIndex, m_spJob := spJob\<rparr>"

section \<open>JobManager (jobmanager.h, jobmanager.cpp)\<close>

datatype JobManagerError =
  jmeNoError | jmeTooManyErrors | jmeNoJobReady | jmeCouldNotStart
  | jmeImplementationError | jmeUserDefined

datatype Status = sRunning | sFinished | sStopped | sError

text \<open>The signals of the manager; \<open>signalJobFinished\<close> carries the job's pointer.\<close>

datatype Signal =
  signalFinished | signalJobFinished nat | signalError JobManagerError
  | signalStopped | signalProgress int

text \<open>
  The members of \<open>JobManager\<close>, and with them the store of the job objects its
  pointers refer to (\<open>heap\<close>) and the signals emitted so far, in order
  (\<open>emitted\<close>). A pointer to a thread is the thread's position in \<open>m_vThreads\<close>
  (threads are only ever appended, or replaced all at once together with the idle
  queue). The queue of waiting jobs holds indices into \<open>m_vspJobs\<close>; they are
  counts of that vector, so never negative. \<open>m_timer\<close> is its interval and whether
  it is active. The manager's stop flag is \<open>m_bStop\<close> in the source, the name of
  the job's flag.
\<close>

record 'a JobManager =
  heap :: "'a heap"
  m_vThreads :: "Thread list"
  m_quIdle :: "nat list"
  m_vspJobs :: "nat list"
  m_quWaiting :: "nat list"
  m_timer_interval :: int
  m_timer_active :: bool
  m_iStarted :: int
  m_iRunning :: int
  m_iFinished :: int
  m_iAllowedErrors :: int
  m_iErrors :: int
  m_eStatus :: Status
  m_eError :: JobManagerError
  m_bStop_jm :: bool
  m_bReportJobFinish :: bool
  emitted :: "Signal list"

text \<open>
  The virtual methods of the jobs that the manager calls. Each works on the store:
  \<open>canStart()\<close> is const but prunes the mutable dependency list,
  \<open>nextSpawnedJob()\<close> creates a job and returns its pointer (or null), and
  \<open>cleanup()\<close> may release what a derived class holds.
\<close>

record 'a vtable =
  v_canStart :: "'a heap \<Rightarrow> nat \<Rightarrow> bool \<times> 'a heap"
  v_nextSpawnedJob :: "'a heap \<Rightarrow> nat \<Rightarrow> nat option \<times> 'a heap"
  v_cleanup :: "'a heap \<Rightarrow> nat \<Rightarrow> 'a heap"

text \<open>The implementations of \<open>AbstractJob\<close> itself.\<close>

definition AbstractJob_vtable :: "'a vtable" where
  "AbstractJob_vtable =
     \<lparr>v_canStart = canStart,
      v_nextSpawnedJob = (\<lambda>h this. (None, h)),
      v_cleanup = (\<lambda>h this. h(this := cleanup (h this)))\<rparr>"

definition emit :: "Signal \<Rightarrow> 'a JobManager \<Rightarrow> 'a JobManager" where
  "emit s jm = jm\<lparr>emitted := emitted jm @ [s]\<rparr>"

definition allocateThreads :: "int \<Rightarrow> 'a JobManager \<Rightarrow> 'a JobManager" where
  "allocateThreads iT jm =
     jm\<lparr>m_vThreads := replicate (nat iT) Thread_new, m_quIdle := [0..<nat iT]\<rparr>"

text \<open>
  The constructor. \<open>idealThreadCount\<close> is what \<open>QThread::idealThreadCount()\<close>
  returns. The constructor does not initialise \<open>m_iErrors\<close>: its value is whatever
  the memory held (\<open>garbage\<close>) until \<open>start()\<close> sets it.
\<close>

definition JobManager_new :: "'a heap \<Rightarrow> int \<Rightarrow> int \<Rightarrow> int \<Rightarrow> 'a JobManager" where
  "JobManager_new h iThreads idealThreadCount garbage =
     allocateThreads (if iThreads \<le> 0 then idealThreadCount else iThreads)
       \<lparr>heap = h, m_vThreads = [], m_quIdle = [], m_vspJobs = [], m_quWaiting = [],
        m_timer_interval = 0, m_timer_active = False,
        m_iStarted = 0, m_iRunning = 0, m_iFinished = 0, m_iAllowedErrors = 0,
        m_iErrors = garbage, m_eStatus = sFinished, m_eError = jmeNoError,
        m_bStop_jm = False, m_bReportJobFinish = False, emitted = []\<rparr>"

definition appendJobUnsafe :: "nat \<Rightarrow> 'a JobManager \<Rightarrow> 'a JobManager" where
  "appendJobUnsafe spJob jm =
     jm\<lparr>m_quWaiting := m_quWaiting jm @ [length (m_vspJobs jm)],
        m_vspJobs := m_vspJobs jm @ [spJob]\<rparr>"

definition appendJob :: "nat \<Rightarrow> 'a JobManager \<Rightarrow> 'a JobManager" where
  "appendJob pJob jm = appendJobUnsafe pJob jm"

definition clear :: "'a JobManager \<Rightarrow> 'a JobManager" where
  "clear jm =
     jm\<lparr>m_vspJobs := [], m_quWaiting := [], m_iStarted := 0, m_iRunning := 0,
        m_bStop_jm := False, m_eError := jmeNoError\<rparr>"


definition setProgressReportTimeout :: "int \<Rightarrow> 'a JobManager \<Rightarrow> 'a JobManager" where
  "setProgressReportTimeout iMS jm = jm\<lparr>m_timer_interval := iMS\<rparr>"


text \<open>The observers; the manager's \<open>isStopped()\<close> returns the stop flag.\<close>

definition jobCount :: "'a JobManager \<Rightarrow> int" where
  "jobCount jm = int (length (m_vspJobs jm))"

definition finishedCount :: "'a JobManager \<Rightarrow> int" where
  "finishedCount jm = m_iFinished jm"

definition threadCount :: "'a JobManager \<Rightarrow> int" where
  "threadCount jm = int (length (m_vThreads jm))"

definition jm_isRunning :: "'a JobManager \<Rightarrow> bool" where
  "jm_isRunning jm = (m_eStatus jm = sRunning)"

definition jm_isIdle :: "'a JobManager \<Rightarrow> bool" where
  "jm_isIdle jm = (m_eStatus jm \<noteq> sRunning)"

definition jm_isFinished :: "'a JobManager \<Rightarrow> bool" where
  "jm_isFinished jm = (m_eStatus jm = sFinished)"

definition jm_isStopped :: "'a JobManager \<Rightarrow> bool" where
  "jm_isStopped jm = m_bStop_jm jm"

text \<open>\<open>handleError()\<close>: its return value and the manager afterwards.\<close>

definition handleError :: "'a JobManager \<Rightarrow> bool \<times> 'a JobManager" where
  "handleError jm =
     (if m_eError jm \<noteq> jmeNoError
      then (True,
            if m_iRunning jm = 0
            then emit (signalError (m_eError jm)) (jm\<lparr>m_eStatus := sError\<rparr>)
            else jm)
      else (False, jm))"

text \<open>
  The loop of \<open>startNext()\<close> over the waiting queue,
  \<^verbatim>\<open>for (int i = 0; i < m_quWaiting.count(); ++i)\<close>,
  from index \<open>i\<close> on. It returns the index of the job it took from the queue
  (\<open>iCurrent\<close>) or \<open>None\<close> when it ran to its end; reading the job table outside
  its range has no defined result in the source and is the failure \<open>None\<close> of the
  whole call.
\<close>

function startNext_loop ::
  "'a vtable \<Rightarrow> nat \<Rightarrow> 'a JobManager \<Rightarrow> (nat option \<times> 'a JobManager) option" where
  "startNext_loop vt i jm =
     (if i < length (m_quWaiting jm) then
        (if hd (m_quWaiting jm) < length (m_vspJobs jm) then
           (let r = v_canStart vt (heap jm) (m_vspJobs jm ! hd (m_quWaiting jm));
                jm1 = jm\<lparr>heap := snd r\<rparr>
            in if fst r
               then Some (Some (hd (m_quWaiting jm1)),
                          jm1\<lparr>m_quWaiting := tl (m_quWaiting jm1)\<rparr>)
               else startNext_loop vt (i + 1)
                      (jm1\<lparr>m_quWaiting := tl (m_quWaiting jm1) @ [hd (m_quWaiting jm1)]\<rparr>))
         else None)
      else Some (None, jm))"
  by pat_completeness auto
termination
  by (relation "measure (\<lambda>(vt, i, jm). length (m_quWaiting jm) - i)") auto

declare startNext_loop.simps [simp del]

text \<open>
  \<open>startNext()\<close>. Taking a thread from an empty idle queue has no defined result in
  the source (\<open>QQueue::dequeue\<close> on an empty queue) and is the failure \<open>None\<close>.
  \<open>spThr->disconnect()\<close> and \<open>connect\<close> wire the thread's \<open>finished\<close> signal to
  \<open>handleJobFinished\<close>; the model calls \<open>handleJobFinished\<close> with the thread that
  finished.
\<close>

definition startNext :: "'a vtable \<Rightarrow> 'a JobManager \<Rightarrow> 'a JobManager option" where
  "startNext vt jm =
     (case m_quIdle jm of
        [] \<Rightarrow> None
      | spThr # idle \<Rightarrow>
          (let jm1 = jm\<lparr>m_quIdle := idle\<rparr>
           in if m_iStarted jm1 < int (length (m_vspJobs jm1)) then
                (case startNext_loop vt 0 jm1 of
                   None \<Rightarrow> None
                 | Some (Some iCurrent, jm2) \<Rightarrow>
                     Some (jm2\<lparr>m_vThreads := (m_vThreads jm2)
                                  [spThr := Thread_start (int iCurrent)
                                              (Some (m_vspJobs jm2 ! iCurrent))
                                              (m_vThreads jm2 ! spThr)],
                               m_iStarted := m_iStarted jm2 + 1,
                               m_iRunning := m_iRunning jm2 + 1\<rparr>)
                 | Some (None, jm2) \<Rightarrow>
                     (let jm3 = (if m_iRunning jm2 = 0
                                 then jm2\<lparr>m_eError := jmeNoJobReady\<rparr> else jm2)
                      in Some (jm3\<lparr>m_quIdle := m_quIdle jm3 @ [spThr]\<rparr>)))
              else Some (jm1\<lparr>m_quIdle := m_quIdle jm1 @ [spThr]\<rparr>)))"

text \<open>\<open>checkNext()\<close>.\<close>

definition checkNext :: "'a vtable \<Rightarrow> 'a JobManager \<Rightarrow> 'a JobManager option" where
  "checkNext vt jm =
     (let jm1 = (if m_iAllowedErrors jm \<ge> 0 \<and> m_iErrors jm > m_iAllowedErrors jm
                 then jm\<lparr>m_eError := jmeTooManyErrors\<rparr> else jm);
          e = handleError jm1;
          jm2 = snd e
      in if fst e then Some jm2
         else if m_bStop_jm jm2 then
           Some (if m_iRunning jm2 = 0
                 then emit signalStopped (jm2\<lparr>m_eStatus := sStopped\<rparr>)
                 else jm2)
         else if m_iFinished jm2 < int (length (m_vspJobs jm2)) then
           (case startNext vt jm2 of
              None \<Rightarrow> None
            | Some jm3 \<Rightarrow> Some (snd (handleError jm3)))
         else
           Some ((if m_timer_interval jm2 > 0
                  then (emit (signalProgress 100) jm2)\<lparr>m_timer_active := False\<rparr>
                  else jm2)\<lparr>m_eStatus := sFinished\<rparr>))"

text \<open>\<open>for (int i = 0; i < iN; ++i) checkNext();\<close> and the same loop of \<open>startNext()\<close>.\<close>

fun checkNext_times :: "'a vtable \<Rightarrow> nat \<Rightarrow> 'a JobManager \<Rightarrow> 'a JobManager option" where
  "checkNext_times vt 0 jm = Some jm"
| "checkNext_times vt (Suc n) jm =
     (case checkNext vt jm of None \<Rightarrow> None | Some jm1 \<Rightarrow> checkNext_times vt n jm1)"

fun startNext_times :: "'a vtable \<Rightarrow> nat \<Rightarrow> 'a JobManager \<Rightarrow> 'a JobManager option" where
  "startNext_times vt 0 jm = Some jm"
| "startNext_times vt (Suc n) jm =
     (case startNext vt jm of None \<Rightarrow> None | Some jm1 \<Rightarrow> startNext_times vt n jm1)"

text \<open>\<open>start()\<close>: its return value and the manager afterwards.\<close>

definition start :: "'a vtable \<Rightarrow> 'a JobManager \<Rightarrow> (bool \<times> 'a JobManager) option" where
  "start vt jm =
     (if m_eStatus jm = sRunning then Some (False, jm)
      else
        (let jm1 = jm\<lparr>m_eStatus := sRunning, m_iErrors := 0, m_iStarted := 0,
                       m_iFinished := 0, m_iRunning := 0, m_bStop_jm := False,
                       m_eError := jmeNoError\<rparr>
         in if length (m_vspJobs jm1) = 0
            then Some (True, emit signalFinished (jm1\<lparr>m_eStatus := sFinished\<rparr>))
            else
              (case startNext_times vt (min (length (m_vThreads jm1)) (length (m_vspJobs jm1))) jm1 of
                 None \<Rightarrow> None
               | Some jm2 \<Rightarrow>
                   Some (True, if m_timer_interval jm2 > 0
                               then jm2\<lparr>m_timer_active := True\<rparr> else jm2))))"

text \<open>
  \<open>stop()\<close>: the loop over the threads calls \<open>stop()\<close> of the job at each thread's
  job index, when that index is not negative. An index beyond the job table (a thread
  that ran a job before \<open>clear()\<close>) reads the vector outside its range: \<open>None\<close>.
\<close>

fun stop_loop :: "Thread list \<Rightarrow> 'a JobManager \<Rightarrow> 'a JobManager option" where
  "stop_loop [] jm = Some jm"
| "stop_loop (t # ts) jm =
     (if jobIndex t \<ge> 0 then
        (if jobIndex t < int (length (m_vspJobs jm))
         then stop_loop ts
                (jm\<lparr>heap := (heap jm)(m_vspJobs jm ! nat (jobIndex t) :=
                      job_stop (heap jm (m_vspJobs jm ! nat (jobIndex t))))\<rparr>)
         else None)
      else stop_loop ts jm)"

definition stop :: "'a JobManager \<Rightarrow> 'a JobManager option" where
  "stop jm = stop_loop (m_vThreads jm) (jm\<lparr>m_bStop_jm := True\<rparr>)"

text \<open>\<open>addThreads(iT)\<close>.\<close>

fun addThreads_loop :: "'a vtable \<Rightarrow> nat \<Rightarrow> 'a JobManager \<Rightarrow> 'a JobManager option" where
  "addThreads_loop vt 0 jm = Some jm"
| "addThreads_loop vt (Suc n) jm =
     (let jm1 = jm\<lparr>m_vThreads := m_vThreads jm @ [Thread_new],
                    m_quIdle := m_quIdle jm @ [length (m_vThreads jm)]\<rparr>
      in if jm_isRunning jm1
         then (case startNext vt jm1 of
                 None \<Rightarrow> None
               | Some jm2 \<Rightarrow> addThreads_loop vt n jm2)
         else addThreads_loop vt n jm1)"

definition addThreads :: "'a vtable \<Rightarrow> int \<Rightarrow> 'a JobManager \<Rightarrow> 'a JobManager option" where
  "addThreads vt iT jm = addThreads_loop vt (nat iT) jm"

text \<open>
  The loop of \<open>handleJobFinished()\<close> that asks the finished job for the jobs it
  spawns,
  \<^verbatim>\<open>AbstractJob* pJob = m_vspJobs[iInd]->nextSpawnedJob();
  while (pJob != nullptr) { ...; pJob->setSpawned(); ...; appendJobUnsafe(spJob);
      pJob = m_vspJobs[iInd]->nextSpawnedJob(); }\<close>
  It ends when the job returns null; with a job that never does, it does not return
  (\<open>None\<close>).
\<close>

partial_function (option) spawn_loop ::
  "'a vtable \<Rightarrow> nat \<Rightarrow> 'a JobManager \<Rightarrow> 'a JobManager option" where
  "spawn_loop vt iInd jm =
     (case v_nextSpawnedJob vt (heap jm) (m_vspJobs jm ! iInd) of
        (None, h) \<Rightarrow> Some (jm\<lparr>heap := h\<rparr>)
      | (Some pJob, h) \<Rightarrow>
          spawn_loop vt iInd
            (appendJobUnsafe pJob (jm\<lparr>heap := h(pJob := setSpawned (h pJob))\<rparr>)))"

declare spawn_loop.simps [code]

text \<open>
  The rest of \<open>handleJobFinished()\<close>, from \<open>m_quIdle.enqueue(spThr)\<close> on, for
  the thread \<open>spThr\<close> and its job index \<open>iInd\<close>.
\<close>

definition handleJobFinished_rest ::
  "'a vtable \<Rightarrow> nat \<Rightarrow> nat \<Rightarrow> 'a JobManager \<Rightarrow> 'a JobManager option" where
  "handleJobFinished_rest vt spThr iInd jm =
     (let jm2 = jm\<lparr>m_quIdle := m_quIdle jm @ [spThr]\<rparr>;
          jm3 = jm2\<lparr>m_iRunning := m_iRunning jm2 - 1\<rparr>;
          jm4 = (if isError (heap jm3 (m_vspJobs jm3 ! iInd))
                 then jm3\<lparr>m_iErrors := m_iErrors jm3 + 1\<rparr> else jm3);
          jm5 = (if m_bReportJobFinish jm4
                 then emit (signalJobFinished (m_vspJobs jm4 ! iInd)) jm4 else jm4);
          iN = max 1 (min (length (m_quWaiting jm5)) (length (m_quIdle jm5)))
      in case checkNext_times vt iN jm5 of
           None \<Rightarrow> None
         | Some jm6 \<Rightarrow>
             Some (if m_eStatus jm6 = sFinished then emit signalFinished jm6 else jm6))"

text \<open>
  \<open>handleJobFinished()\<close>, called with the thread that finished (\<open>sender()\<close>):
  the count of finished jobs, the thread's job index, the loop over the spawned jobs,
  \<open>m_vspJobs[iInd]->cleanup()\<close>, and the rest. The \<open>assert\<close> that the sender is a
  thread of the manager, and the read of the job table at the thread's job index,
  fail as \<open>None\<close>.
\<close>

definition handleJobFinished ::
  "'a vtable \<Rightarrow> nat \<Rightarrow> 'a JobManager \<Rightarrow> 'a JobManager option" where
  "handleJobFinished vt sender jm =
     (let jm1 = jm\<lparr>m_iFinished := m_iFinished jm + 1\<rparr>
      in if sender < length (m_vThreads jm1) then
           (let iInd = jobIndex (m_vThreads jm1 ! sender)
            in if 0 \<le> iInd \<and> iInd < int (length (m_vspJobs jm1)) then
                 (case spawn_loop vt (nat iInd) jm1 of
                    None \<Rightarrow> None
                  | Some jm2 \<Rightarrow>
                      handleJobFinished_rest vt sender (nat iInd)
                        (jm2\<lparr>heap := v_cleanup vt (heap jm2) (m_vspJobs jm2 ! nat iInd)\<rparr>))
               else None)
         else None)"

text \<open>
  A worker thread running its job: \<open>exec()\<close> of the job the thread holds, with the
  job's \<open>process()\<close> given. It is a step of its own, between the \<open>startNext()\<close>
  that started the thread and the \<open>handleJobFinished()\<close> for it.
\<close>

definition thread_run ::
  "('a AbstractJob_scheme \<Rightarrow> 'a AbstractJob_scheme) \<Rightarrow> nat \<Rightarrow> 'a JobManager \<Rightarrow> 'a JobManager" where
  "thread_run process t jm =
     (case m_spJob (m_vThreads jm ! t) of
        None \<Rightarrow> jm
      | Some a \<Rightarrow> jm\<lparr>heap := (heap jm)(a := fst (exec process (heap jm a)))\<rparr>)"

section \<open>AbstractSessionManager (abstractsessionmanager.h, abstractsessionmanager.cpp)\<close>

text \<open>
  The status enum of the session manager has the names of the job manager's
  (\<open>sRunning\<close>, \<open>sPaused\<close>, ...); here its values are \<open>smRunning\<close>,
  \<open>smPaused\<close>, ... Its signals are \<open>signalFinished()\<close>,
  \<open>signalSessionFinished(int)\<close>, \<open>signalError(int, JobManagerError)\<close>,
  \<open>signalStopped(int)\<close> and \<open>signalProgress(int)\<close>.
\<close>

datatype SessionStatus = smRunning | smPaused | smFinished | smStopped | smError

datatype SessionSignal =
  sm_signalFinished | sm_signalSessionFinished int | sm_signalError int JobManagerError
  | sm_signalStopped int | sm_signalProgress int

text \<open>
  The members, the signals emitted so far (\<open>sm_emitted\<close>) and the pending calls
  \<open>QTimer::singleShot(m_iSessionTimeout, this, SLOT(startNextSession()))\<close>, each
  with its delay (\<open>sm_singleShot\<close>). \<open>m_eStatus\<close> and \<open>m_iFinished\<close> are names of
  the job manager's members too.
\<close>

record 'a AbstractSessionManager =
  m_eStatus_sm :: SessionStatus
  m_jm :: "'a JobManager"
  m_iSessionIndex :: int
  m_iSessionTimeout :: int
  m_iFinished_sm :: int
  sm_emitted :: "SessionSignal list"
  sm_singleShot :: "int list"





definition sm_isFinished :: "'a AbstractSessionManager \<Rightarrow> bool" where
  "sm_isFinished sm = (m_eStatus_sm sm = smFinished)"

definition currentSession :: "'a AbstractSessionManager \<Rightarrow> int" where
  "currentSession sm = m_iSessionIndex sm"











section \<open>Notions of the statements\<close>

text \<open>
  The successive calls of \<open>nextSpawnedJob()\<close> on the job at \<open>this\<close>, as the
  specification words them: the calls return the jobs \<open>ps\<close>, in this order, and
  then "none"; each returned job is marked spawned before the next call. The result
  is the store after the last call, and \<open>None\<close> when the calls do not return
  exactly \<open>ps\<close> and then "none".
\<close>

fun spec_spawned :: "'a vtable \<Rightarrow> nat \<Rightarrow> 'a heap \<Rightarrow> nat list \<Rightarrow> 'a heap option" where
  "spec_spawned vt this h [] =
     (case v_nextSpawnedJob vt h this of
        (None, h') \<Rightarrow> Some h'
      | (Some pJob, h') \<Rightarrow> None)"
| "spec_spawned vt this h (p # ps) =
     (case v_nextSpawnedJob vt h this of
        (None, h') \<Rightarrow> None
      | (Some pJob, h') \<Rightarrow>
          if pJob = p then spec_spawned vt this (h'(p := setSpawned (h' p))) ps else None)"

text \<open>What a dispatch by \<open>startNext()\<close> leaves as it was, and how its counters move.\<close>

definition dispatch_frame :: "'a JobManager \<Rightarrow> 'a JobManager \<Rightarrow> bool" where
  "dispatch_frame jm jm' =
     (m_vspJobs jm' = m_vspJobs jm
      \<and> length (m_vThreads jm') = length (m_vThreads jm)
      \<and> m_timer_interval jm' = m_timer_interval jm
      \<and> m_timer_active jm' = m_timer_active jm
      \<and> m_iFinished jm' = m_iFinished jm
      \<and> m_iAllowedErrors jm' = m_iAllowedErrors jm
      \<and> m_iErrors jm' = m_iErrors jm
      \<and> m_eStatus jm' = m_eStatus jm
      \<and> m_bStop_jm jm' = m_bStop_jm jm
      \<and> m_bReportJobFinish jm' = m_bReportJobFinish jm
      \<and> emitted jm' = emitted jm
      \<and> set (m_quWaiting jm') \<subseteq> set (m_quWaiting jm)
      \<and> m_iRunning jm' - m_iRunning jm = m_iStarted jm' - m_iStarted jm
      \<and> 0 \<le> m_iStarted jm' - m_iStarted jm
      \<and> int (length (m_quWaiting jm))
          = int (length (m_quWaiting jm')) + (m_iStarted jm' - m_iStarted jm)
      \<and> int (length (m_quIdle jm))
          = int (length (m_quIdle jm')) + (m_iStarted jm' - m_iStarted jm))"

text \<open>
  The waiting job \<open>w\<close> (an index of the job table) can start: its \<open>canStart()\<close>
  returns true on the store of the manager.
\<close>

definition ready :: "'a vtable \<Rightarrow> 'a JobManager \<Rightarrow> nat \<Rightarrow> bool" where
  "ready vt jm w = fst (v_canStart vt (heap jm) (m_vspJobs jm ! w))"

text \<open>
  What \<open>n\<close> calls of \<open>startNext()\<close> in a row do, from \<open>jm\<close> to \<open>jm'\<close>, when
  \<open>canStart()\<close> of a job keeps returning the same: with \<open>R\<close> the waiting jobs that
  can start, in the order of the queue, the first \<open>k = min n (length R)\<close> of them are
  started, the \<open>i\<close>-th on the \<open>i\<close>-th thread of the idle queue; the other
  \<open>n - k\<close> threads taken go back to the end of the idle queue; the started jobs
  leave the waiting queue; \<open>jmeNoJobReady\<close> is recorded when a call found no job
  and none was running.
\<close>

definition dispatched :: "'a vtable \<Rightarrow> nat \<Rightarrow> 'a JobManager \<Rightarrow> 'a JobManager \<Rightarrow> bool" where
  "dispatched vt n jm jm' =
     (let R = filter (ready vt jm) (m_quWaiting jm); k = min n (length R)
      in m_iStarted jm' = m_iStarted jm + int k
       \<and> m_iRunning jm' = m_iRunning jm + int k
       \<and> m_quIdle jm' = drop n (m_quIdle jm) @ drop k (take n (m_quIdle jm))
       \<and> length (m_vThreads jm') = length (m_vThreads jm)
       \<and> (\<forall>i<k. m_vThreads jm' ! (m_quIdle jm ! i) =
                   Thread_start (int (R ! i)) (Some (m_vspJobs jm ! (R ! i)))
                     (m_vThreads jm ! (m_quIdle jm ! i)))
       \<and> (\<forall>t. t \<notin> set (take k (m_quIdle jm)) \<longrightarrow> m_vThreads jm' ! t = m_vThreads jm ! t)
       \<and> filter (ready vt jm) (m_quWaiting jm') = drop k R
       \<and> mset (m_quWaiting jm') + mset (take k R) = mset (m_quWaiting jm)
       \<and> m_eError jm' =
           (if k < n \<and> m_iRunning jm + int k = 0 then jmeNoJobReady else m_eError jm)
       \<and> (\<forall>b. fst (v_canStart vt (heap jm') b) = fst (v_canStart vt (heap jm) b))
       \<and> m_vspJobs jm' = m_vspJobs jm)"

section \<open>Scenarios\<close>

text \<open>Two runs of one job object: the first succeeds, the second reports error 1.\<close>

definition job_first_run :: AbstractJob where
  "job_first_run = cleanup (fst (exec (\<lambda>j. j) (AbstractJob_new ''job'')))"

definition job_second_run :: AbstractJob where
  "job_second_run = cleanup (fst (exec (reportError 1) job_first_run))"

text \<open>
  A store of fresh jobs of the base class, and a manager with two threads, no allowed
  errors (the default) and the jobs at the addresses 0 to 3 appended.
\<close>

definition fresh_jobs :: "unit heap" where
  "fresh_jobs = (\<lambda>a. AbstractJob_new [])"

definition two_threads_four_jobs :: "unit JobManager" where
  "two_threads_four_jobs =
     appendJob 3 (appendJob 2 (appendJob 1 (appendJob 0 (JobManager_new fresh_jobs 2 4 0))))"

text \<open>
  A run of that manager: \<open>start()\<close>; the job of thread 0 reports error 1 and its
  thread finishes; then the job of thread 1 succeeds and its thread finishes.
\<close>

definition run_started :: "unit JobManager option" where
  "run_started = map_option snd (start AbstractJob_vtable two_threads_four_jobs)"

definition run_job0_failed :: "unit JobManager option" where
  "run_job0_failed =
     Option.bind run_started
       (\<lambda>jm. handleJobFinished AbstractJob_vtable 0 (thread_run (reportError 1) 0 jm))"

definition run_job1_done :: "unit JobManager option" where
  "run_job1_done =
     Option.bind run_job0_failed
       (\<lambda>jm. handleJobFinished AbstractJob_vtable 1 (thread_run (\<lambda>j. j) 1 jm))"

text \<open>
  The same run, but after the failure of job 0, while job 1 still runs, the caller
  adds a thread.
\<close>

definition run_thread_added :: "unit JobManager option" where
  "run_thread_added = Option.bind run_job0_failed (addThreads AbstractJob_vtable 1)"

text \<open>A manager with one thread and one job, run to its end, and then cleared.\<close>

definition one_job_done :: "unit JobManager option" where
  "one_job_done =
     Option.bind (map_option snd (start AbstractJob_vtable
                    (appendJob 0 (JobManager_new fresh_jobs 1 4 0))))
       (\<lambda>jm. handleJobFinished AbstractJob_vtable 0 (thread_run (\<lambda>j. j) 0 jm))"

definition one_job_cleared :: "unit JobManager option" where
  "one_job_cleared = map_option clear one_job_done"

text \<open>Jobs whose \<open>canStart()\<close> is overridden to return true.\<close>

definition ready_vtable :: "unit vtable" where
  "ready_vtable = AbstractJob_vtable\<lparr>v_canStart := (\<lambda>h this. (True, h))\<rparr>"

text \<open>
  \<open>TestJobSpawned\<close> of the unit tests: \<open>process()\<close> sets \<open>m_iSpawned\<close> to 0,
  \<open>nextSpawnedJob()\<close> counts its calls in it and returns a new job at the first
  two. The constructor leaves \<open>m_iSpawned\<close> as the memory was (\<open>garbage\<close>). This
  job is at address 0 and \<open>new\<close> places the jobs it creates at the addresses 1 and
  2; every other job has the \<open>nextSpawnedJob()\<close> of the base class.
\<close>

record TestJobSpawned = AbstractJob +
  m_iSpawned :: int

definition TestJobSpawned_new :: "int \<Rightarrow> TestJobSpawned" where
  "TestJobSpawned_new garbage =
     AbstractJob.extend (AbstractJob_new []) (TestJobSpawned.fields garbage)"

definition TestJobSpawned_process :: "TestJobSpawned \<Rightarrow> TestJobSpawned" where
  "TestJobSpawned_process j = j\<lparr>m_iSpawned := 0\<rparr>"

definition TestJobSpawned_nextSpawnedJob ::
  "(nat \<Rightarrow> TestJobSpawned) \<Rightarrow> nat \<Rightarrow> nat option \<times> (nat \<Rightarrow> TestJobSpawned)" where
  "TestJobSpawned_nextSpawnedJob h this =
     (if this = 0 then
        (let h1 = h(this := (h this)\<lparr>m_iSpawned := m_iSpawned (h this) + 1\<rparr>)
         in if m_iSpawned (h1 this) \<le> 2
            then (Some (nat (m_iSpawned (h1 this))),
                  h1(nat (m_iSpawned (h1 this)) := TestJobSpawned_new 0))
            else (None, h1))
      else (None, h))"

definition TestJobSpawned_vtable :: "unit TestJobSpawned_ext vtable" where
  "TestJobSpawned_vtable =
     AbstractJob_vtable\<lparr>v_nextSpawnedJob := TestJobSpawned_nextSpawnedJob\<rparr>"

text \<open>
  The manager with four threads and that job appended, as in the test
  \<open>spawnJobs()\<close>, after \<open>start()\<close> and after thread 0 has run the job.
\<close>

definition spawner_appended :: "unit TestJobSpawned_ext JobManager" where
  "spawner_appended = appendJob 0 (JobManager_new (\<lambda>a. TestJobSpawned_new 7) 4 4 0)"

definition spawner_running :: "unit TestJobSpawned_ext JobManager" where
  "spawner_running =
     thread_run TestJobSpawned_process 0
       (case start TestJobSpawned_vtable spawner_appended of
          Some (ok, jm) \<Rightarrow> jm
        | None \<Rightarrow> spawner_appended)"

text \<open>
  The manager of the run above right after \<open>start()\<close> (both threads run a job);
  the same after \<open>stop()\<close>; and the latter when the running count has reached 0.
\<close>

definition two_running :: "unit JobManager" where
  "two_running =
     (case start AbstractJob_vtable two_threads_four_jobs of
        Some (ok, jm) \<Rightarrow> jm
      | None \<Rightarrow> two_threads_four_jobs)"

definition stop_requested :: "unit JobManager" where
  "stop_requested = (case stop two_running of Some jm \<Rightarrow> jm | None \<Rightarrow> two_running)"

definition stop_requested_idle :: "unit JobManager" where
  "stop_requested_idle = stop_requested\<lparr>m_iRunning := 0\<rparr>"

text \<open>
  The store after the calls of \<open>nextSpawnedJob()\<close> of that job, which return the
  jobs at 1 and 2 and then null; and the manager after \<open>handleJobFinished()\<close> for
  thread 0.
\<close>

definition spawner_store :: "nat \<Rightarrow> TestJobSpawned" where
  "spawner_store =
     (case spec_spawned TestJobSpawned_vtable 0 (heap spawner_running) [1, 2] of
        Some h \<Rightarrow> h
      | None \<Rightarrow> heap spawner_running)"

definition spawner_done :: "unit TestJobSpawned_ext JobManager" where
  "spawner_done =
     (case handleJobFinished TestJobSpawned_vtable 0 spawner_running of
        Some jm \<Rightarrow> jm
      | None \<Rightarrow> spawner_running)"









text \<open>
  The manager with two threads and the jobs 0 to 3, where job 1 depends on job 0.
\<close>

definition dependent_jobs :: "unit heap" where
  "dependent_jobs = addDependency (Some 0) fresh_jobs 1"

definition two_threads_dependent :: "unit JobManager" where
  "two_threads_dependent =
     appendJob 3 (appendJob 2 (appendJob 1 (appendJob 0 (JobManager_new dependent_jobs 2 4 0))))"

text \<open>
  The manager that ran one job to its end and was cleared (thread 0 keeps the job index
  0, the job table is empty); and the manager with four jobs after \<open>stop()\<close>, with
  no job running any more and one error counted.
\<close>

definition one_job_cleared_jm :: "unit JobManager" where
  "one_job_cleared_jm =
     (case one_job_cleared of Some jm \<Rightarrow> jm | None \<Rightarrow> JobManager_new fresh_jobs 1 4 0)"

definition stop_requested_error :: "unit JobManager" where
  "stop_requested_error = stop_requested_idle\<lparr>m_iErrors := 1\<rparr>"

section \<open>Properties of AbstractJob\<close>

declare canStart_loop.simps [simp del]

lemma deps_self_update: "m_vspDependency j = ds \<Longrightarrow> j\<lparr>m_vspDependency := ds\<rparr> = j"
  by auto

lemma canStart_loop_dropWhile:
  "canStart_loop h this =
     h(this := (h this)\<lparr>m_vspDependency :=
         dropWhile (\<lambda>d. isFinished (h d)) (m_vspDependency (h this))\<rparr>)"
proof (induction h this rule: canStart_loop.induct)
  case (1 h this)
  show ?case
  proof (cases "m_vspDependency (h this)")
    case Nil
    then show ?thesis by (subst canStart_loop.simps) (simp add: deps_self_update)
  next
    case (Cons d ds)
    show ?thesis
    proof (cases "isFinished (h d)")
      case False
      with Cons show ?thesis by (subst canStart_loop.simps) (simp add: deps_self_update)
    next
      case True
      let ?h1 = "h(this := (h this)\<lparr>m_vspDependency := ds\<rparr>)"
      have same: "(\<lambda>x. isFinished (?h1 x)) = (\<lambda>x. isFinished (h x))"
        by (rule ext) (simp add: isFinished_def)
      have "canStart_loop h this = canStart_loop ?h1 this"
        using Cons True by (subst canStart_loop.simps) simp
      also have "\<dots> = ?h1(this := (?h1 this)\<lparr>m_vspDependency :=
          dropWhile (\<lambda>x. isFinished (?h1 x)) (m_vspDependency (?h1 this))\<rparr>)"
        using "1.IH" [OF Cons True] .
      also have "\<dots> = h(this := (h this)\<lparr>m_vspDependency :=
          dropWhile (\<lambda>x. isFinished (h x)) (m_vspDependency (h this))\<rparr>)"
        unfolding same using Cons True by simp
      finally show ?thesis .
    qed
  qed
qed

lemma list_all_dropWhile: "list_all P (dropWhile P xs) = list_all P xs"
  by (induction xs) auto

lemma canStart_result:
  "canStart h this =
     (list_all (\<lambda>d. isFinished (h d)) (m_vspDependency (h this)),
      h(this := (h this)\<lparr>m_vspDependency :=
         dropWhile (\<lambda>d. isFinished (h d)) (m_vspDependency (h this))\<rparr>))"
  by (simp add: canStart_def Let_def canStart_loop_dropWhile list_all_iff)

lemma canStart_stable:
  "fst (canStart (snd (canStart h a)) b) = fst (canStart h b)"
proof -
  let ?h' = "h(a := (h a)\<lparr>m_vspDependency :=
         dropWhile (\<lambda>d. isFinished (h d)) (m_vspDependency (h a))\<rparr>)"
  have same: "(\<lambda>d. isFinished (?h' d)) = (\<lambda>d. isFinished (h d))"
    by (rule ext) (simp add: isFinished_def)
  show ?thesis
    unfolding canStart_result fst_conv snd_conv same
    by (cases "b = a") (simp_all add: list_all_dropWhile)
qed

text \<open>
  C2. The default \<open>canStart()\<close> returns true exactly when every job of the
  dependency list has its finished flag set. A call removes the dependencies it
  observed finished: the loop inspects the list from the head and stops at the first
  entry that is not finished, so the entries observed finished are the leading run of
  finished ones (\<open>takeWhile\<close>); they are gone from the list afterwards and
  \<open>dependencyCount()\<close> is smaller by their number. What stays starts with the first
  unfinished entry; no other member and no other job changes.
\<close>

theorem canStart_all_finished_and_prunes_observed:
  "fst (canStart h this) = list_all (\<lambda>d. isFinished (h d)) (m_vspDependency (h this))
   \<and> m_vspDependency (h this) =
       takeWhile (\<lambda>d. isFinished (h d)) (m_vspDependency (h this))
       @ m_vspDependency (snd (canStart h this) this)
   \<and> m_vspDependency (snd (canStart h this) this) =
       dropWhile (\<lambda>d. isFinished (h d)) (m_vspDependency (h this))
   \<and> dependencyCount (snd (canStart h this) this) =
       dependencyCount (h this)
       - int (length (takeWhile (\<lambda>d. isFinished (h d)) (m_vspDependency (h this))))
   \<and> snd (canStart h this) =
       h(this := (h this)\<lparr>m_vspDependency := m_vspDependency (snd (canStart h this) this)\<rparr>)"
proof -
  let ?P = "\<lambda>d. isFinished (h d)"
  let ?ds = "m_vspDependency (h this)"
  have heap: "snd (canStart h this) = h(this := (h this)\<lparr>m_vspDependency := dropWhile ?P ?ds\<rparr>)"
    by (simp add: canStart_def Let_def canStart_loop_dropWhile)
  have deps: "m_vspDependency (snd (canStart h this) this) = dropWhile ?P ?ds"
    by (simp add: heap)
  have ret: "fst (canStart h this) = (dropWhile ?P ?ds = [])"
    by (simp add: canStart_def Let_def canStart_loop_dropWhile)
  have all: "(dropWhile ?P ?ds = []) = list_all ?P ?ds"
    by (simp add: list_all_iff)
  have len: "length (dropWhile ?P ?ds) = length ?ds - length (takeWhile ?P ?ds)"
    by (metis add_diff_cancel_left' length_append takeWhile_dropWhile_id)
  have le: "length (takeWhile ?P ?ds) \<le> length ?ds"
    by (rule length_takeWhile_le)
  have c1: "fst (canStart h this) = list_all ?P ?ds"
    using ret all by simp
  have c2: "?ds = takeWhile ?P ?ds @ m_vspDependency (snd (canStart h this) this)"
    by (simp add: deps)
  have c4: "dependencyCount (snd (canStart h this) this) =
      dependencyCount (h this) - int (length (takeWhile ?P ?ds))"
    using len le by (simp add: deps dependencyCount_def)
  have c5: "snd (canStart h this) =
      h(this := (h this)\<lparr>m_vspDependency := m_vspDependency (snd (canStart h this) this)\<rparr>)"
    by (subst deps, rule heap)
  from c1 c2 deps c4 c5 show ?thesis by blast
qed

text \<open>
  C7, as the code has it. \<open>cleanup()\<close> sets the finished flag when the error code is
  0 and the stop flag is clear, and otherwise leaves the flag as it was: it never
  clears it, and it changes no other member. So for a job whose finished flag was
  clear before \<open>cleanup()\<close>, the flag is set afterwards exactly when the error code is
  0 and the job was not cancelled, and then \<open>finished\<close> implies both. \<open>exec()\<close>
  resets the stop flag and the error code only: the finished flag after \<open>exec()\<close> is
  the one \<open>process()\<close> left.
\<close>

theorem cleanup_sets_finished_never_clears:
  "isFinished (cleanup j) = (isFinished j \<or> (errorCode j = 0 \<and> \<not> isStopped j))
   \<and> (\<not> isFinished j \<longrightarrow>
        isFinished (cleanup j) = (errorCode (cleanup j) = 0 \<and> \<not> isStopped (cleanup j)))
   \<and> cleanup j = j\<lparr>m_bFinished := isFinished (cleanup j)\<rparr>
   \<and> isFinished (fst (exec process j))
       = isFinished (process (j\<lparr>m_bStop := False, m_iError := 0\<rparr>))"
  by (auto simp add: cleanup_def exec_def isFinished_def errorCode_def isStopped_def Let_def)

theorem cleanup_sets_finished_never_clears_witness:
  "\<not> isFinished (AbstractJob_new ''job'')
   \<and> isFinished (cleanup (AbstractJob_new ''job''))
   \<and> errorCode (cleanup (AbstractJob_new ''job'')) = 0
   \<and> \<not> isStopped (cleanup (AbstractJob_new ''job''))"
  using cleanup_sets_finished_never_clears [of "AbstractJob_new ''job''"]
  by (simp add: AbstractJob_new_def isFinished_def errorCode_def isStopped_def cleanup_def)

text \<open>
  The claim as stated fails for a job object that is executed again after a run that
  succeeded: the second run reports error 1, \<open>exec()\<close> did not clear the finished
  flag and \<open>cleanup()\<close> does not clear it either, so the job is finished with a
  non-zero error code.
\<close>

theorem finished_with_error_after_second_run:
  "isFinished job_second_run \<and> errorCode job_second_run = 1"
  by (simp add: job_second_run_def job_first_run_def cleanup_def exec_def reportError_def
      AbstractJob_new_def isFinished_def errorCode_def Let_def)

text \<open>
  C10. \<open>exec()\<close> emits exactly one signal, chosen from the job as \<open>process()\<close> left
  it: the error signal when the error code is not 0, whatever the stop flag says; the
  stopped signal when the error code is 0 and the stop flag is set; the finished
  signal when the error code is 0 and the stop flag is clear.
\<close>

theorem exec_emits_one_signal_error_first:
  "length (snd (exec process j)) = 1
   \<and> fst (exec process j) = process (j\<lparr>m_bStop := False, m_iError := 0\<rparr>)
   \<and> (snd (exec process j) = [job_signalError]) = isError (fst (exec process j))
   \<and> (snd (exec process j) = [job_signalStopped])
       = (errorCode (fst (exec process j)) = 0 \<and> isStopped (fst (exec process j)))
   \<and> (snd (exec process j) = [job_signalFinished])
       = (errorCode (fst (exec process j)) = 0 \<and> \<not> isStopped (fst (exec process j)))"
  by (simp add: exec_def Let_def isError_def errorCode_def isStopped_def)

section \<open>Properties of JobManager\<close>

subsection \<open>Dispatch: startNext() and start()\<close>

lemma rotate_set: "ws \<noteq> [] \<Longrightarrow> set (tl ws @ [hd ws]) = set ws"
  by (cases ws) auto

lemma startNext_loop_frame:
  "startNext_loop vt i jm = Some (r, jm') \<Longrightarrow>
     jm' = jm\<lparr>heap := heap jm', m_quWaiting := m_quWaiting jm'\<rparr>
     \<and> set (m_quWaiting jm') \<subseteq> set (m_quWaiting jm)
     \<and> (case r of
          None \<Rightarrow> length (m_quWaiting jm') = length (m_quWaiting jm)
        | Some c \<Rightarrow> Suc (length (m_quWaiting jm')) = length (m_quWaiting jm)
                    \<and> c < length (m_vspJobs jm))"
proof (induction vt i jm arbitrary: r jm' rule: startNext_loop.induct)
  case (1 vt i jm)
  show ?case
  proof (cases "i < length (m_quWaiting jm)")
    case False
    with "1.prems" show ?thesis
      by (simp add: startNext_loop.simps)
  next
    case True
    then have ne: "m_quWaiting jm \<noteq> []" by auto
    show ?thesis
    proof (cases "hd (m_quWaiting jm) < length (m_vspJobs jm)")
      case False
      with True "1.prems" show ?thesis by (simp add: startNext_loop.simps)
    next
      case inrange: True
      let ?r = "v_canStart vt (heap jm) (m_vspJobs jm ! hd (m_quWaiting jm))"
      let ?jm1 = "jm\<lparr>heap := snd ?r\<rparr>"
      show ?thesis
      proof (cases "fst ?r")
        case True
        with \<open>i < length (m_quWaiting jm)\<close> inrange "1.prems" ne show ?thesis
          by (cases "m_quWaiting jm") (auto simp add: startNext_loop.simps Let_def)
      next
        case False
        let ?jm2 = "?jm1\<lparr>m_quWaiting := tl (m_quWaiting ?jm1) @ [hd (m_quWaiting ?jm1)]\<rparr>"
        have rec: "startNext_loop vt (i + 1) ?jm2 = Some (r, jm')"
          using \<open>i < length (m_quWaiting jm)\<close> inrange False "1.prems"
          by (simp add: startNext_loop.simps [of vt i jm] Let_def)
        have ih: "jm' = ?jm2\<lparr>heap := heap jm', m_quWaiting := m_quWaiting jm'\<rparr>
           \<and> set (m_quWaiting jm') \<subseteq> set (m_quWaiting ?jm2)
           \<and> (case r of
                None \<Rightarrow> length (m_quWaiting jm') = length (m_quWaiting ?jm2)
              | Some c \<Rightarrow> Suc (length (m_quWaiting jm')) = length (m_quWaiting ?jm2)
                    \<and> c < length (m_vspJobs ?jm2))"
          using "1.IH" [OF \<open>i < length (m_quWaiting jm)\<close> inrange refl refl False rec] .
        have s: "set (m_quWaiting ?jm2) = set (m_quWaiting jm)"
          using ne by (cases "m_quWaiting jm") auto
        have l: "length (m_quWaiting ?jm2) = length (m_quWaiting jm)"
          using ne by (cases "m_quWaiting jm") auto
        from ih have e: "jm' = jm\<lparr>heap := heap jm', m_quWaiting := m_quWaiting jm'\<rparr>"
          by simp
        from ih s l e show ?thesis by (auto split: option.splits)
      qed
    qed
  qed
qed

lemma startNext_loop_total:
  "\<forall>w\<in>set (m_quWaiting jm). w < length (m_vspJobs jm) \<Longrightarrow> startNext_loop vt i jm \<noteq> None"
proof (induction vt i jm rule: startNext_loop.induct)
  case (1 vt i jm)
  show ?case
  proof (cases "i < length (m_quWaiting jm)")
    case False
    then show ?thesis by (simp add: startNext_loop.simps)
  next
    case True
    then have ne: "m_quWaiting jm \<noteq> []" by auto
    then have inrange: "hd (m_quWaiting jm) < length (m_vspJobs jm)"
      using "1.prems" by (cases "m_quWaiting jm") auto
    let ?r = "v_canStart vt (heap jm) (m_vspJobs jm ! hd (m_quWaiting jm))"
    let ?jm1 = "jm\<lparr>heap := snd ?r\<rparr>"
    show ?thesis
    proof (cases "fst ?r")
      case True
      with \<open>i < length (m_quWaiting jm)\<close> inrange show ?thesis
        by (simp add: startNext_loop.simps [of vt i jm] Let_def)
    next
      case False
      let ?jm2 = "?jm1\<lparr>m_quWaiting := tl (m_quWaiting ?jm1) @ [hd (m_quWaiting ?jm1)]\<rparr>"
      have v: "\<forall>w\<in>set (m_quWaiting ?jm2). w < length (m_vspJobs ?jm2)"
        using "1.prems" ne by (cases "m_quWaiting jm") auto
      have "startNext_loop vt (i + 1) ?jm2 \<noteq> None"
        using "1.IH" [OF \<open>i < length (m_quWaiting jm)\<close> inrange refl refl False v] .
      then show ?thesis
        using \<open>i < length (m_quWaiting jm)\<close> inrange False
        by (simp add: startNext_loop.simps [of vt i jm] Let_def)
    qed
  qed
qed

lemma dispatch_frame_refl: "dispatch_frame jm jm"
  by (simp add: dispatch_frame_def)

lemma dispatch_frame_trans:
  "dispatch_frame a b \<Longrightarrow> dispatch_frame b c \<Longrightarrow> dispatch_frame a c"
  unfolding dispatch_frame_def by auto

lemma startNext_frame:
  assumes "startNext vt jm = Some jm'"
  shows "dispatch_frame jm jm' \<and> m_iStarted jm' - m_iStarted jm \<le> 1"
proof (cases "m_quIdle jm")
  case Nil
  with assms show ?thesis by (simp add: startNext_def)
next
  case (Cons spThr idle)
  let ?jm1 = "jm\<lparr>m_quIdle := idle\<rparr>"
  show ?thesis
  proof (cases "m_iStarted jm < int (length (m_vspJobs jm))")
    case False
    with assms Cons show ?thesis
      by (auto simp add: startNext_def Let_def dispatch_frame_def)
  next
    case True
    show ?thesis
    proof (cases "startNext_loop vt 0 ?jm1")
      case None
      with assms Cons True show ?thesis by (simp add: startNext_def Let_def)
    next
      case (Some p)
      obtain r jm2 where p: "p = (r, jm2)" by (cases p)
      note fr = startNext_loop_frame [OF Some [unfolded p]]
      have e: "jm2 = ?jm1\<lparr>heap := heap jm2, m_quWaiting := m_quWaiting jm2\<rparr>"
        using fr by (rule conjunct1)
      have s: "set (m_quWaiting jm2) \<subseteq> set (m_quWaiting jm)"
        using conjunct1 [OF conjunct2 [OF fr]] by simp
      have c: "(case r of
            None \<Rightarrow> length (m_quWaiting jm2) = length (m_quWaiting jm)
          | Some c \<Rightarrow> Suc (length (m_quWaiting jm2)) = length (m_quWaiting jm)
                    \<and> c < length (m_vspJobs jm))"
        using conjunct2 [OF conjunct2 [OF fr]] by (cases r) simp_all
      have f: "m_vspJobs jm2 = m_vspJobs jm" "m_vThreads jm2 = m_vThreads jm"
        "m_timer_interval jm2 = m_timer_interval jm" "m_timer_active jm2 = m_timer_active jm"
        "m_iFinished jm2 = m_iFinished jm" "m_iAllowedErrors jm2 = m_iAllowedErrors jm"
        "m_iErrors jm2 = m_iErrors jm" "m_eStatus jm2 = m_eStatus jm"
        "m_bStop_jm jm2 = m_bStop_jm jm" "m_bReportJobFinish jm2 = m_bReportJobFinish jm"
        "emitted jm2 = emitted jm" "m_iStarted jm2 = m_iStarted jm"
        "m_iRunning jm2 = m_iRunning jm" "m_quIdle jm2 = idle" "m_eError jm2 = m_eError jm"
        using arg_cong [OF e, of m_vspJobs] arg_cong [OF e, of m_vThreads]
          arg_cong [OF e, of m_timer_interval] arg_cong [OF e, of m_timer_active]
          arg_cong [OF e, of m_iFinished] arg_cong [OF e, of m_iAllowedErrors]
          arg_cong [OF e, of m_iErrors] arg_cong [OF e, of m_eStatus]
          arg_cong [OF e, of m_bStop_jm] arg_cong [OF e, of m_bReportJobFinish]
          arg_cong [OF e, of emitted] arg_cong [OF e, of m_iStarted]
          arg_cong [OF e, of m_iRunning] arg_cong [OF e, of m_quIdle] arg_cong [OF e, of m_eError]
        by simp_all
      show ?thesis
      proof (cases r)
        case None
        with assms Cons True Some p have
          "jm' = (if m_iRunning jm2 = 0 then jm2\<lparr>m_eError := jmeNoJobReady\<rparr> else jm2)
                   \<lparr>m_quIdle := m_quIdle jm2 @ [spThr]\<rparr>"
          by (auto simp add: startNext_def Let_def)
        with f s c None Cons show ?thesis
          by (auto simp add: dispatch_frame_def)
      next
        case (Some iCurrent)
        with assms Cons True \<open>startNext_loop vt 0 ?jm1 = Some p\<close> p have
          "jm' = jm2\<lparr>m_vThreads := (m_vThreads jm2)
                       [spThr := Thread_start (int iCurrent) (Some (m_vspJobs jm2 ! iCurrent))
                                   (m_vThreads jm2 ! spThr)],
                     m_iStarted := m_iStarted jm2 + 1,
                     m_iRunning := m_iRunning jm2 + 1\<rparr>"
          by (simp add: startNext_def Let_def)
        with f s c Some Cons show ?thesis
          by (auto simp add: dispatch_frame_def)
      qed
    qed
  qed
qed

lemma startNext_total:
  assumes "m_quIdle jm \<noteq> []" "\<forall>w\<in>set (m_quWaiting jm). w < length (m_vspJobs jm)"
  shows "startNext vt jm \<noteq> None"
proof -
  obtain spThr idle where i: "m_quIdle jm = spThr # idle"
    using assms(1) by (cases "m_quIdle jm") auto
  have "startNext_loop vt 0 (jm\<lparr>m_quIdle := idle\<rparr>) \<noteq> None"
    by (rule startNext_loop_total) (use assms(2) in simp)
  then show ?thesis
    by (auto simp add: startNext_def i Let_def split: option.splits)
qed

lemma startNext_times_frame:
  "startNext_times vt n jm = Some jm' \<Longrightarrow>
     dispatch_frame jm jm' \<and> m_iStarted jm' - m_iStarted jm \<le> int n"
proof (induction n arbitrary: jm)
  case 0
  then show ?case by (simp add: dispatch_frame_refl)
next
  case (Suc n)
  then obtain jm1 where a: "startNext vt jm = Some jm1" and b: "startNext_times vt n jm1 = Some jm'"
    by (auto split: option.splits)
  from startNext_frame [OF a] Suc.IH [OF b] show ?case
    by (auto intro: dispatch_frame_trans)
qed

lemma startNext_times_total:
  "n \<le> length (m_quIdle jm) \<Longrightarrow> \<forall>w\<in>set (m_quWaiting jm). w < length (m_vspJobs jm)
     \<Longrightarrow> startNext_times vt n jm \<noteq> None"
proof (induction n arbitrary: jm)
  case 0
  then show ?case by simp
next
  case (Suc n)
  then have "m_quIdle jm \<noteq> []" by auto
  from startNext_total [OF this Suc.prems(2)]
  obtain jm1 where a: "startNext vt jm = Some jm1" by auto
  from startNext_frame [OF a] have fr: "dispatch_frame jm jm1" and le: "m_iStarted jm1 - m_iStarted jm \<le> 1"
    by simp_all
  have "n \<le> length (m_quIdle jm1)"
    using fr le Suc.prems(1) unfolding dispatch_frame_def by linarith
  moreover have "\<forall>w\<in>set (m_quWaiting jm1). w < length (m_vspJobs jm1)"
    using fr Suc.prems(2) unfolding dispatch_frame_def by auto
  ultimately have "startNext_times vt n jm1 \<noteq> None" by (rule Suc.IH)
  with a show ?case by simp
qed

lemma startNext_starts_ready:
  assumes idle: "m_quIdle jm \<noteq> []"
    and w: "m_quWaiting jm \<noteq> []" "\<forall>w\<in>set (m_quWaiting jm). w < length (m_vspJobs jm)"
    and st: "m_iStarted jm < int (length (m_vspJobs jm))"
    and ready: "\<forall>h a. fst (v_canStart vt h a)"
  shows "\<exists>jm'. startNext vt jm = Some jm' \<and> m_iStarted jm' = m_iStarted jm + 1"
proof -
  obtain spThr idle' where i: "m_quIdle jm = spThr # idle'"
    using idle by (cases "m_quIdle jm") auto
  obtain x ws where q: "m_quWaiting jm = x # ws"
    using w(1) by (cases "m_quWaiting jm") auto
  have x: "x < length (m_vspJobs jm)" using w(2) q by simp
  show ?thesis
    using i q x st ready
    by (simp add: startNext_def Let_def startNext_loop.simps [of vt 0])
qed

lemma startNext_times_starts_ready:
  "n \<le> length (m_quIdle jm) \<Longrightarrow> n \<le> length (m_quWaiting jm)
   \<Longrightarrow> \<forall>w\<in>set (m_quWaiting jm). w < length (m_vspJobs jm)
   \<Longrightarrow> m_iStarted jm + int n \<le> int (length (m_vspJobs jm))
   \<Longrightarrow> \<forall>h a. fst (v_canStart vt h a)
   \<Longrightarrow> \<exists>jm'. startNext_times vt n jm = Some jm' \<and> m_iStarted jm' = m_iStarted jm + int n"
proof (induction n arbitrary: jm)
  case 0
  then show ?case by simp
next
  case (Suc n)
  have "\<exists>jm1. startNext vt jm = Some jm1 \<and> m_iStarted jm1 = m_iStarted jm + 1"
    by (rule startNext_starts_ready) (use Suc.prems in auto)
  then obtain jm1 where a: "startNext vt jm = Some jm1" and s: "m_iStarted jm1 = m_iStarted jm + 1"
    by auto
  from startNext_frame [OF a] have fr: "dispatch_frame jm jm1" by simp
  have "\<exists>jm'. startNext_times vt n jm1 = Some jm' \<and> m_iStarted jm' = m_iStarted jm1 + int n"
  proof (rule Suc.IH)
    show "n \<le> length (m_quIdle jm1)"
      using fr s Suc.prems(1) unfolding dispatch_frame_def by linarith
    show "n \<le> length (m_quWaiting jm1)"
      using fr s Suc.prems(2) unfolding dispatch_frame_def by linarith
    show "\<forall>w\<in>set (m_quWaiting jm1). w < length (m_vspJobs jm1)"
      using fr Suc.prems(3) unfolding dispatch_frame_def by auto
    show "m_iStarted jm1 + int n \<le> int (length (m_vspJobs jm1))"
      using fr s Suc.prems(4) unfolding dispatch_frame_def by simp
    show "\<forall>h a. fst (v_canStart vt h a)" by (rule Suc.prems(5))
  qed
  with a s show ?case by auto
qed

lemma start_with_jobs:
  assumes a: "m_eStatus jm \<noteq> sRunning \<and> m_vspJobs jm \<noteq> []
        \<and> min (length (m_vThreads jm)) (length (m_vspJobs jm)) \<le> length (m_quIdle jm)
        \<and> (\<forall>w\<in>set (m_quWaiting jm). w < length (m_vspJobs jm))"
  shows "\<exists>jm'. start vt jm = Some (True, jm')
           \<and> m_eStatus jm' = sRunning \<and> m_iFinished jm' = 0 \<and> m_iErrors jm' = 0
           \<and> m_bStop_jm jm' = False
           \<and> m_iRunning jm' = m_iStarted jm' \<and> 0 \<le> m_iStarted jm'
           \<and> m_iStarted jm' \<le> int (min (length (m_vThreads jm)) (length (m_quWaiting jm)))
           \<and> int (length (m_quWaiting jm')) = int (length (m_quWaiting jm)) - m_iStarted jm'
           \<and> ((\<forall>h a. fst (v_canStart vt h a)) \<and> length (m_quWaiting jm) = length (m_vspJobs jm)
                \<longrightarrow> m_iStarted jm' = int (min (length (m_vThreads jm)) (length (m_quWaiting jm))))
           \<and> m_timer_active jm' = (0 < m_timer_interval jm \<or> m_timer_active jm)
           \<and> emitted jm' = emitted jm \<and> m_vspJobs jm' = m_vspJobs jm"
proof -
  let ?jm1 = "jm\<lparr>m_eStatus := sRunning, m_iErrors := 0, m_iStarted := 0,
                       m_iFinished := 0, m_iRunning := 0, m_bStop_jm := False,
                       m_eError := jmeNoError\<rparr>"
  let ?n = "min (length (m_vThreads jm)) (length (m_vspJobs jm))"
  have "startNext_times vt ?n ?jm1 \<noteq> None"
    by (rule startNext_times_total) (use a in simp_all)
  then obtain jm2 where t: "startNext_times vt ?n ?jm1 = Some jm2" by auto
  from startNext_times_frame [OF t]
  have fr: "dispatch_frame ?jm1 jm2" and le: "m_iStarted jm2 - m_iStarted ?jm1 \<le> int ?n"
    by simp_all
  let ?jm' = "if m_timer_interval jm2 > 0 then jm2\<lparr>m_timer_active := True\<rparr> else jm2"
  have s: "start vt jm = Some (True, ?jm')"
    using a t by (simp add: start_def Let_def)
  have exact: "m_iStarted jm2 = int (min (length (m_vThreads jm)) (length (m_quWaiting jm)))"
    if r: "\<forall>h a. fst (v_canStart vt h a)" and l: "length (m_quWaiting jm) = length (m_vspJobs jm)"
  proof -
    have "\<exists>jm'. startNext_times vt ?n ?jm1 = Some jm' \<and> m_iStarted jm' = m_iStarted ?jm1 + int ?n"
      by (rule startNext_times_starts_ready) (use a r l in simp_all)
    with t l show ?thesis by simp
  qed
  have props: "m_eStatus ?jm' = sRunning \<and> m_iFinished ?jm' = 0 \<and> m_iErrors ?jm' = 0
       \<and> m_bStop_jm ?jm' = False
       \<and> m_iRunning ?jm' = m_iStarted ?jm' \<and> 0 \<le> m_iStarted ?jm'
       \<and> m_iStarted ?jm' \<le> int (min (length (m_vThreads jm)) (length (m_quWaiting jm)))
       \<and> int (length (m_quWaiting ?jm')) = int (length (m_quWaiting jm)) - m_iStarted ?jm'
       \<and> m_timer_active ?jm' = (0 < m_timer_interval jm \<or> m_timer_active jm)
       \<and> emitted ?jm' = emitted jm \<and> m_vspJobs ?jm' = m_vspJobs jm"
    using fr le unfolding dispatch_frame_def by auto
  have ex: "(\<forall>h a. fst (v_canStart vt h a)) \<and> length (m_quWaiting jm) = length (m_vspJobs jm)
       \<longrightarrow> m_iStarted ?jm' = int (min (length (m_vThreads jm)) (length (m_quWaiting jm)))"
    using exact by auto
  from s props ex show ?thesis by blast
qed

lemma startNext_loop_exact:
  assumes "\<forall>h a b. fst (v_canStart vt (snd (v_canStart vt h a)) b) = fst (v_canStart vt h b)"
    and "\<forall>w\<in>set (m_quWaiting jm). w < length (m_vspJobs jm)"
  shows "\<exists>h'. (\<forall>b. fst (v_canStart vt h' b) = fst (v_canStart vt (heap jm) b)) \<and>
      startNext_loop vt i jm = Some
        (case dropWhile (\<lambda>w. \<not> ready vt jm w)
                (take (length (m_quWaiting jm) - i) (m_quWaiting jm)) of
           [] \<Rightarrow> (None, jm\<lparr>heap := h',
                     m_quWaiting := drop (length (m_quWaiting jm) - i) (m_quWaiting jm)
                        @ take (length (m_quWaiting jm) - i) (m_quWaiting jm)\<rparr>)
         | c # rest \<Rightarrow>
             (Some c, jm\<lparr>heap := h',
                m_quWaiting := rest @ drop (length (m_quWaiting jm) - i) (m_quWaiting jm)
                  @ takeWhile (\<lambda>w. \<not> ready vt jm w)
                      (take (length (m_quWaiting jm) - i) (m_quWaiting jm))\<rparr>))"
  using assms
proof (induction vt i jm rule: startNext_loop.induct)
  case (1 vt i jm)
  note st = "1.prems"(1) and inr = "1.prems"(2)
  show ?case
  proof (cases "i < length (m_quWaiting jm)")
    case False
    then have m: "length (m_quWaiting jm) - i = 0" by simp
    have "startNext_loop vt i jm = Some (None, jm)"
      using False by (simp add: startNext_loop.simps)
    then show ?thesis
      by (intro exI [of _ "heap jm"]) (simp add: m)
  next
    case True
    obtain w ws where q: "m_quWaiting jm = w # ws"
      using True by (cases "m_quWaiting jm") auto
    have wr: "hd (m_quWaiting jm) < length (m_vspJobs jm)"
      using inr q by simp
    define k where "k = length ws - i"
    have m: "Suc (length ws) - i = Suc k" and kl: "k \<le> length ws"
      using True q by (simp_all add: k_def)
    let ?r = "v_canStart vt (heap jm) (m_vspJobs jm ! hd (m_quWaiting jm))"
    let ?jm1 = "jm\<lparr>heap := snd ?r\<rparr>"
    have pres: "\<forall>b. fst (v_canStart vt (snd ?r) b) = fst (v_canStart vt (heap jm) b)"
      using st by simp
    show ?thesis
    proof (cases "fst ?r")
      case rdy: True
      have l: "startNext_loop vt i jm = Some (Some w, jm\<lparr>heap := snd ?r, m_quWaiting := ws\<rparr>)"
        using True q wr rdy by (simp add: startNext_loop.simps [of vt i jm] Let_def)
      have rw: "ready vt jm w" using rdy q by (simp add: ready_def)
      show ?thesis
        using pres l rw
        by (intro exI [of _ "snd ?r"]) (simp add: q m)
    next
      case nrdy: False
      let ?jm2 = "?jm1\<lparr>m_quWaiting := tl (m_quWaiting ?jm1) @ [hd (m_quWaiting ?jm1)]\<rparr>"
      have rec: "startNext_loop vt i jm = startNext_loop vt (i + 1) ?jm2"
        using True wr nrdy by (simp add: startNext_loop.simps [of vt i jm] Let_def)
      have inr2: "\<forall>w\<in>set (m_quWaiting ?jm2). w < length (m_vspJobs ?jm2)"
        using inr q by auto
      have rq: "ready vt ?jm2 = ready vt jm"
        using pres by (intro ext) (simp add: ready_def)
      have nw: "\<not> ready vt jm w" using nrdy q by (simp add: ready_def)
      have e1: "take (length (m_quWaiting ?jm2) - (i + 1)) (m_quWaiting ?jm2) = take k ws"
        using q kl by (simp add: k_def)
      have e2: "drop (length (m_quWaiting ?jm2) - (i + 1)) (m_quWaiting ?jm2) = drop k ws @ [w]"
        using q kl by (simp add: k_def)
      from "1.IH" [OF True wr refl refl nrdy st inr2]
      obtain h' where p': "\<forall>b. fst (v_canStart vt h' b) = fst (v_canStart vt (heap ?jm2) b)"
        and l': "startNext_loop vt (i + 1) ?jm2 = Some
          (case dropWhile (\<lambda>w. \<not> ready vt ?jm2 w)
                (take (length (m_quWaiting ?jm2) - (i + 1)) (m_quWaiting ?jm2)) of
           [] \<Rightarrow> (None, ?jm2\<lparr>heap := h',
                     m_quWaiting := drop (length (m_quWaiting ?jm2) - (i + 1)) (m_quWaiting ?jm2)
                        @ take (length (m_quWaiting ?jm2) - (i + 1)) (m_quWaiting ?jm2)\<rparr>)
         | c # rest \<Rightarrow>
             (Some c, ?jm2\<lparr>heap := h',
                m_quWaiting := rest @ drop (length (m_quWaiting ?jm2) - (i + 1)) (m_quWaiting ?jm2)
                  @ takeWhile (\<lambda>w. \<not> ready vt ?jm2 w)
                      (take (length (m_quWaiting ?jm2) - (i + 1)) (m_quWaiting ?jm2))\<rparr>))"
        by blast
      have p: "\<forall>b. fst (v_canStart vt h' b) = fst (v_canStart vt (heap jm) b)"
        using p' pres by simp
      have ne: "Bex (set (take k ws)) (ready vt jm)"
        if "dropWhile (\<lambda>w. \<not> ready vt jm w) (take k ws) = a # l" for a l
        using that by (metis dropWhile_eq_Nil_conv list.distinct(1))
      have l2: "startNext_loop vt i jm = Some
          (case dropWhile (\<lambda>w. \<not> ready vt jm w) (take k ws) of
           [] \<Rightarrow> (None, jm\<lparr>heap := h', m_quWaiting := drop k ws @ w # take k ws\<rparr>)
         | c # rest \<Rightarrow>
             (Some c, jm\<lparr>heap := h',
                m_quWaiting := rest @ drop k ws @ w # takeWhile (\<lambda>w. \<not> ready vt jm w) (take k ws)\<rparr>))"
        unfolding rec l' rq e1 e2
        by (simp split: list.split) (use ne in blast)
      show ?thesis
        using p l2 nw
        by (intro exI [of _ h']) (simp add: q m split: list.split, use ne in blast)
    qed
  qed
qed


lemma startNext_exact:
  assumes st: "\<forall>h a b. fst (v_canStart vt (snd (v_canStart vt h a)) b) = fst (v_canStart vt h b)"
    and idle: "m_quIdle jm = t # ts"
    and inr: "\<forall>w\<in>set (m_quWaiting jm). w < length (m_vspJobs jm)"
    and g: "m_iStarted jm < int (length (m_vspJobs jm))"
  shows "\<exists>h'. (\<forall>b. fst (v_canStart vt h' b) = fst (v_canStart vt (heap jm) b)) \<and>
      startNext vt jm = Some
        (case dropWhile (\<lambda>w. \<not> ready vt jm w) (m_quWaiting jm) of
           [] \<Rightarrow> jm\<lparr>heap := h', m_quIdle := ts @ [t],
                    m_eError := (if m_iRunning jm = 0 then jmeNoJobReady else m_eError jm)\<rparr>
         | c # rest \<Rightarrow>
             jm\<lparr>heap := h', m_quIdle := ts,
                m_quWaiting := rest @ takeWhile (\<lambda>w. \<not> ready vt jm w) (m_quWaiting jm),
                m_vThreads := (m_vThreads jm)
                  [t := Thread_start (int c) (Some (m_vspJobs jm ! c)) (m_vThreads jm ! t)],
                m_iStarted := m_iStarted jm + 1, m_iRunning := m_iRunning jm + 1\<rparr>)"
proof -
  let ?jm1 = "jm\<lparr>m_quIdle := ts\<rparr>"
  have inr1: "\<forall>w\<in>set (m_quWaiting ?jm1). w < length (m_vspJobs ?jm1)"
    using inr by simp
  have rq: "ready vt ?jm1 = ready vt jm"
    by (intro ext) (simp add: ready_def)
  have "\<exists>h'. (\<forall>b. fst (v_canStart vt h' b) = fst (v_canStart vt (heap jm) b)) \<and>
      startNext_loop vt 0 ?jm1 = Some
        (case dropWhile (\<lambda>w. \<not> ready vt jm w) (m_quWaiting jm) of
           [] \<Rightarrow> (None, ?jm1\<lparr>heap := h', m_quWaiting := m_quWaiting jm\<rparr>)
         | c # rest \<Rightarrow>
             (Some c, ?jm1\<lparr>heap := h',
                m_quWaiting := rest @ takeWhile (\<lambda>w. \<not> ready vt jm w) (m_quWaiting jm)\<rparr>))"
    using startNext_loop_exact [OF st inr1, of 0] unfolding rq
    by (simp cong del: list.case_cong_weak)
  then obtain h' where p: "\<forall>b. fst (v_canStart vt h' b) = fst (v_canStart vt (heap jm) b)"
    and l: "startNext_loop vt 0 ?jm1 = Some
        (case dropWhile (\<lambda>w. \<not> ready vt jm w) (m_quWaiting jm) of
           [] \<Rightarrow> (None, ?jm1\<lparr>heap := h', m_quWaiting := m_quWaiting jm\<rparr>)
         | c # rest \<Rightarrow>
             (Some c, ?jm1\<lparr>heap := h',
                m_quWaiting := rest @ takeWhile (\<lambda>w. \<not> ready vt jm w) (m_quWaiting jm)\<rparr>))"
    by blast
  show ?thesis
  proof (cases "dropWhile (\<lambda>w. \<not> ready vt jm w) (m_quWaiting jm)")
    case Nil
    have "startNext vt jm =
        Some (jm\<lparr>heap := h', m_quIdle := ts @ [t],
                 m_eError := (if m_iRunning jm = 0 then jmeNoJobReady else m_eError jm)\<rparr>)"
      using idle g l [unfolded Nil list.case] by (simp add: startNext_def Let_def)
    with p show ?thesis unfolding Nil list.case by blast
  next
    case (Cons c rest)
    have "startNext vt jm =
        Some (jm\<lparr>heap := h', m_quIdle := ts,
                m_quWaiting := rest @ takeWhile (\<lambda>w. \<not> ready vt jm w) (m_quWaiting jm),
                m_vThreads := (m_vThreads jm)
                  [t := Thread_start (int c) (Some (m_vspJobs jm ! c)) (m_vThreads jm ! t)],
                m_iStarted := m_iStarted jm + 1, m_iRunning := m_iRunning jm + 1\<rparr>)"
      using idle g l [unfolded Cons list.case] by (simp add: startNext_def Let_def)
    with p show ?thesis unfolding Cons list.case by blast
  qed
qed


lemma startNext_times_exact:
  assumes st: "\<forall>h a b. fst (v_canStart vt (snd (v_canStart vt h a)) b) = fst (v_canStart vt h b)"
  shows "n \<le> length (m_quIdle jm) \<Longrightarrow> distinct (m_quIdle jm)
     \<Longrightarrow> \<forall>t\<in>set (m_quIdle jm). t < length (m_vThreads jm)
     \<Longrightarrow> \<forall>w\<in>set (m_quWaiting jm). w < length (m_vspJobs jm)
     \<Longrightarrow> m_iStarted jm + int n \<le> int (length (m_vspJobs jm))
     \<Longrightarrow> \<exists>jm'. startNext_times vt n jm = Some jm' \<and> dispatched vt n jm jm'"
proof (induction n arbitrary: jm)
  case 0
  show ?case by (simp add: dispatched_def)
next
  case (Suc n)
  note le = Suc.prems(1) and di = Suc.prems(2) and tr = Suc.prems(3)
    and inr = Suc.prems(4) and sl = Suc.prems(5)
  obtain t ts where idle: "m_quIdle jm = t # ts"
    using le by (cases "m_quIdle jm") auto
  have nts: "n \<le> length ts" using le idle by simp
  have tn: "t \<notin> set ts" and dts: "distinct ts" using di idle by simp_all
  have tlt: "t < length (m_vThreads jm)" and tslt: "\<forall>x\<in>set ts. x < length (m_vThreads jm)"
    using tr idle by simp_all
  have g: "m_iStarted jm < int (length (m_vspJobs jm))" using sl by simp
  let ?N = "\<lambda>w. \<not> ready vt jm w"
  let ?q = "m_quWaiting jm"
  from startNext_exact [OF st idle inr g]
  obtain h' where p: "\<forall>b. fst (v_canStart vt h' b) = fst (v_canStart vt (heap jm) b)"
    and sn: "startNext vt jm = Some
        (case dropWhile ?N ?q of
           [] \<Rightarrow> jm\<lparr>heap := h', m_quIdle := ts @ [t],
                    m_eError := (if m_iRunning jm = 0 then jmeNoJobReady else m_eError jm)\<rparr>
         | c # rest \<Rightarrow>
             jm\<lparr>heap := h', m_quIdle := ts,
                m_quWaiting := rest @ takeWhile ?N ?q,
                m_vThreads := (m_vThreads jm)
                  [t := Thread_start (int c) (Some (m_vspJobs jm ! c)) (m_vThreads jm ! t)],
                m_iStarted := m_iStarted jm + 1, m_iRunning := m_iRunning jm + 1\<rparr>)"
    by blast
  show ?case
  proof (cases "dropWhile ?N ?q")
    case Nil
    define jm1 where "jm1 = jm\<lparr>heap := h', m_quIdle := ts @ [t],
        m_eError := (if m_iRunning jm = 0 then jmeNoJobReady else m_eError jm)\<rparr>"
    have s1: "startNext vt jm = Some jm1"
      using sn unfolding Nil list.case jm1_def .
    have R0: "filter (ready vt jm) ?q = []"
      using Nil by (simp add: filter_empty_conv)
    have rq: "ready vt jm1 = ready vt jm"
      using p by (intro ext) (simp add: ready_def jm1_def)
    have f1: "m_quIdle jm1 = ts @ [t]" "m_quWaiting jm1 = ?q" "m_vThreads jm1 = m_vThreads jm"
      "m_vspJobs jm1 = m_vspJobs jm" "m_iStarted jm1 = m_iStarted jm"
      "m_iRunning jm1 = m_iRunning jm" "heap jm1 = h'"
      "m_eError jm1 = (if m_iRunning jm = 0 then jmeNoJobReady else m_eError jm)"
      by (simp_all add: jm1_def)
    have "\<exists>jm'. startNext_times vt n jm1 = Some jm' \<and> dispatched vt n jm1 jm'"
    proof (rule Suc.IH)
      show "n \<le> length (m_quIdle jm1)" using nts by (simp add: f1)
      show "distinct (m_quIdle jm1)" using tn dts by (simp add: f1)
      show "\<forall>t\<in>set (m_quIdle jm1). t < length (m_vThreads jm1)"
        using tlt tslt by (simp add: f1)
      show "\<forall>w\<in>set (m_quWaiting jm1). w < length (m_vspJobs jm1)"
        using inr by (simp add: f1)
      show "m_iStarted jm1 + int n \<le> int (length (m_vspJobs jm1))"
        using sl by (simp add: f1)
    qed
    then obtain jm' where t1: "startNext_times vt n jm1 = Some jm'"
      and d1: "dispatched vt n jm1 jm'" by blast
    have t: "startNext_times vt (Suc n) jm = Some jm'"
      using s1 t1 by simp
    have d: "dispatched vt (Suc n) jm jm'"
      using d1 nts p unfolding dispatched_def rq f1 R0 idle Let_def
      by simp
    from t d show ?thesis by blast
  next
    case (Cons c rest)
    define jm1 where "jm1 = jm\<lparr>heap := h', m_quIdle := ts,
                m_quWaiting := rest @ takeWhile ?N ?q,
                m_vThreads := (m_vThreads jm)
                  [t := Thread_start (int c) (Some (m_vspJobs jm ! c)) (m_vThreads jm ! t)],
                m_iStarted := m_iStarted jm + 1, m_iRunning := m_iRunning jm + 1\<rparr>"
    have s1: "startNext vt jm = Some jm1"
      using sn unfolding Cons list.case jm1_def .
    have pc: "ready vt jm c"
      using hd_dropWhile [of ?N ?q] Cons by simp
    have tq: "?q = takeWhile ?N ?q @ c # rest"
      using takeWhile_dropWhile_id [of ?N ?q] Cons by simp
    have ft: "filter (ready vt jm) (takeWhile ?N ?q) = []"
      by (auto simp add: filter_empty_conv dest: set_takeWhileD)
    define R1 where "R1 = filter (ready vt jm) rest"
    have R: "filter (ready vt jm) ?q = c # R1"
      by (subst tq) (simp add: ft pc R1_def)
    have rq: "ready vt jm1 = ready vt jm"
      using p by (intro ext) (simp add: ready_def jm1_def)
    have f1: "m_quIdle jm1 = ts" "m_quWaiting jm1 = rest @ takeWhile ?N ?q"
      "m_vThreads jm1 = (m_vThreads jm)
                  [t := Thread_start (int c) (Some (m_vspJobs jm ! c)) (m_vThreads jm ! t)]"
      "m_vspJobs jm1 = m_vspJobs jm" "m_iStarted jm1 = m_iStarted jm + 1"
      "m_iRunning jm1 = m_iRunning jm + 1" "heap jm1 = h'" "m_eError jm1 = m_eError jm"
      by (simp_all add: jm1_def)
    have Rj: "filter (ready vt jm) (m_quWaiting jm1) = R1"
      by (simp add: f1 ft R1_def)
    have "\<exists>jm'. startNext_times vt n jm1 = Some jm' \<and> dispatched vt n jm1 jm'"
    proof (rule Suc.IH)
      show "n \<le> length (m_quIdle jm1)" using nts by (simp add: f1)
      show "distinct (m_quIdle jm1)" using dts by (simp add: f1)
      show "\<forall>t\<in>set (m_quIdle jm1). t < length (m_vThreads jm1)"
        using tslt by (simp add: f1)
      show "\<forall>w\<in>set (m_quWaiting jm1). w < length (m_vspJobs jm1)"
      proof -
        have sq: "set ?q = set (takeWhile ?N ?q) \<union> insert c (set rest)"
          using arg_cong [OF tq, of set] by simp
        have "set (m_quWaiting jm1) \<subseteq> set ?q"
          unfolding sq by (auto simp add: f1)
        with inr show ?thesis by (auto simp add: f1)
      qed
      show "m_iStarted jm1 + int n \<le> int (length (m_vspJobs jm1))"
        using sl by (simp add: f1)
    qed
    then obtain jm' where t1: "startNext_times vt n jm1 = Some jm'"
      and d1: "dispatched vt n jm1 jm'" by blast
    have t: "startNext_times vt (Suc n) jm = Some jm'"
      using s1 t1 by simp
    define k1 where "k1 = min n (length R1)"
    have k: "min (Suc n) (length (c # R1)) = Suc k1" by (simp add: k1_def)
    have k1n: "k1 \<le> n" by (simp add: k1_def)
    note d1' = d1 [unfolded dispatched_def rq Let_def, unfolded Rj, unfolded f1, folded k1_def]
    have a1: "m_iStarted jm' = m_iStarted jm + 1 + int k1"
      and a2: "m_iRunning jm' = m_iRunning jm + 1 + int k1"
      and a3: "m_quIdle jm' = drop n ts @ drop k1 (take n ts)"
      and a4: "length (m_vThreads jm') = length (m_vThreads jm)"
      and a5: "\<forall>i<k1. m_vThreads jm' ! (ts ! i) =
                   Thread_start (int (R1 ! i)) (Some (m_vspJobs jm ! (R1 ! i)))
                     ((m_vThreads jm)
                        [t := Thread_start (int c) (Some (m_vspJobs jm ! c)) (m_vThreads jm ! t)]
                      ! (ts ! i))"
      and a6: "\<forall>x. x \<notin> set (take k1 ts) \<longrightarrow> m_vThreads jm' ! x =
                   (m_vThreads jm)
                        [t := Thread_start (int c) (Some (m_vspJobs jm ! c)) (m_vThreads jm ! t)] ! x"
      and a7: "filter (ready vt jm) (m_quWaiting jm') = drop k1 R1"
      and a8: "mset (m_quWaiting jm') + mset (take k1 R1) = mset (rest @ takeWhile ?N ?q)"
      and a9: "m_eError jm' =
           (if k1 < n \<and> m_iRunning jm + 1 + int k1 = 0 then jmeNoJobReady else m_eError jm)"
      and a10: "\<forall>b. fst (v_canStart vt (heap jm') b) = fst (v_canStart vt h' b)"
      and a11: "m_vspJobs jm' = m_vspJobs jm"
      using d1' by simp_all
    have b5: "\<forall>i<Suc k1. m_vThreads jm' ! ((t # ts) ! i) =
                   Thread_start (int ((c # R1) ! i)) (Some (m_vspJobs jm ! ((c # R1) ! i)))
                     (m_vThreads jm ! ((t # ts) ! i))"
    proof (intro allI impI)
      fix i assume i: "i < Suc k1"
      show "m_vThreads jm' ! ((t # ts) ! i) =
                   Thread_start (int ((c # R1) ! i)) (Some (m_vspJobs jm ! ((c # R1) ! i)))
                     (m_vThreads jm ! ((t # ts) ! i))"
      proof (cases i)
        case 0
        have "t \<notin> set (take k1 ts)" using tn by (auto dest: in_set_takeD)
        with a6 tlt 0 show ?thesis by simp
      next
        case (Suc j)
        then have j: "j < k1" using i by simp
        then have jl: "j < length ts" using k1n nts by simp
        then have "ts ! j \<noteq> t" using tn by (metis nth_mem)
        with a5 j Suc show ?thesis by simp
      qed
    qed
    have b6: "\<forall>x. x \<notin> set (take (Suc k1) (t # ts)) \<longrightarrow> m_vThreads jm' ! x = m_vThreads jm ! x"
      using a6 by simp
    have b8: "mset (m_quWaiting jm') + mset (take (Suc k1) (c # R1)) = mset ?q"
    proof -
      have msq: "mset ?q = mset (takeWhile ?N ?q) + {#c#} + mset rest"
        using arg_cong [OF tq, of mset] by simp
      show ?thesis using a8 by (simp add: msq)
    qed
    have b9: "m_eError jm' =
           (if Suc k1 < Suc n \<and> m_iRunning jm + int (Suc k1) = 0 then jmeNoJobReady else m_eError jm)"
      using a9 by (simp add: add.commute add.left_commute)
    have d: "dispatched vt (Suc n) jm jm'"
      unfolding dispatched_def R Let_def k idle
      using a1 a2 a3 a4 b5 b6 a7 b8 b9 a10 a11 p
      by (intro conjI) simp_all
    from t d show ?thesis by blast
  qed
qed


lemma AbstractJob_vtable_stable:
  "\<forall>h a b. fst (v_canStart AbstractJob_vtable (snd (v_canStart AbstractJob_vtable h a)) b)
      = fst (v_canStart AbstractJob_vtable h b)"
  by (simp add: AbstractJob_vtable_def canStart_stable)

lemma start_exact:
  assumes a: "m_eStatus jm \<noteq> sRunning \<and> m_vspJobs jm \<noteq> []
      \<and> n = min (length (m_vThreads jm)) (length (m_vspJobs jm))
      \<and> n \<le> length (m_quIdle jm) \<and> distinct (m_quIdle jm)
      \<and> (\<forall>t\<in>set (m_quIdle jm). t < length (m_vThreads jm))
      \<and> (\<forall>w\<in>set (m_quWaiting jm). w < length (m_vspJobs jm))
      \<and> (\<forall>h a b. fst (v_canStart vt (snd (v_canStart vt h a)) b) = fst (v_canStart vt h b))
      \<and> R = filter (ready vt jm) (m_quWaiting jm) \<and> k = min n (length R)"
  shows "\<exists>jm'. start vt jm = Some (True, jm')
      \<and> m_eStatus jm' = sRunning \<and> m_iStarted jm' = int k \<and> m_iRunning jm' = int k
      \<and> m_iFinished jm' = 0 \<and> m_iErrors jm' = 0 \<and> m_bStop_jm jm' = False
      \<and> m_quIdle jm' = drop n (m_quIdle jm) @ drop k (take n (m_quIdle jm))
      \<and> length (m_vThreads jm') = length (m_vThreads jm)
      \<and> (\<forall>i<k. m_vThreads jm' ! (m_quIdle jm ! i) =
                  Thread_start (int (R ! i)) (Some (m_vspJobs jm ! (R ! i)))
                    (m_vThreads jm ! (m_quIdle jm ! i)))
      \<and> (\<forall>t. t \<notin> set (take k (m_quIdle jm)) \<longrightarrow> m_vThreads jm' ! t = m_vThreads jm ! t)
      \<and> filter (ready vt jm) (m_quWaiting jm') = drop k R
      \<and> mset (m_quWaiting jm') + mset (take k R) = mset (m_quWaiting jm)
      \<and> (\<forall>w. ready vt jm' w = ready vt jm w)
      \<and> m_eError jm' = (if 0 < n \<and> R = [] then jmeNoJobReady else jmeNoError)
      \<and> m_vspJobs jm' = m_vspJobs jm \<and> emitted jm' = emitted jm
      \<and> m_timer_active jm' = (0 < m_timer_interval jm \<or> m_timer_active jm)
      \<and> m_timer_interval jm' = m_timer_interval jm
      \<and> m_iAllowedErrors jm' = m_iAllowedErrors jm
      \<and> m_bReportJobFinish jm' = m_bReportJobFinish jm"
proof -
  let ?jm1 = "jm\<lparr>m_eStatus := sRunning, m_iErrors := 0, m_iStarted := 0,
                       m_iFinished := 0, m_iRunning := 0, m_bStop_jm := False,
                       m_eError := jmeNoError\<rparr>"
  from a have st: "\<forall>h a b. fst (v_canStart vt (snd (v_canStart vt h a)) b) = fst (v_canStart vt h b)"
    and n: "n = min (length (m_vThreads jm)) (length (m_vspJobs jm))"
    and R: "R = filter (ready vt jm) (m_quWaiting jm)" and k: "k = min n (length R)"
    and nr: "m_eStatus jm \<noteq> sRunning" and ne: "m_vspJobs jm \<noteq> []"
    by blast+
  have rq: "ready vt ?jm1 = ready vt jm"
    by (intro ext) (simp add: ready_def)
  have "\<exists>jm'. startNext_times vt n ?jm1 = Some jm' \<and> dispatched vt n ?jm1 jm'"
    by (rule startNext_times_exact [OF st]) (use a in simp_all)
  then obtain jm2 where t: "startNext_times vt n ?jm1 = Some jm2"
    and d: "dispatched vt n ?jm1 jm2" by blast
  let ?R = "filter (ready vt jm) (m_quWaiting jm)"
  let ?k = "min n (length ?R)"
  have f: "m_quWaiting ?jm1 = m_quWaiting jm" "m_quIdle ?jm1 = m_quIdle jm"
    "m_vThreads ?jm1 = m_vThreads jm" "m_vspJobs ?jm1 = m_vspJobs jm" "m_iStarted ?jm1 = 0"
    "m_iRunning ?jm1 = 0" "m_eError ?jm1 = jmeNoError" "heap ?jm1 = heap jm"
    by simp_all
  note d' = d [unfolded dispatched_def rq Let_def, unfolded f]
  from startNext_times_frame [OF t]
  have fr: "dispatch_frame ?jm1 jm2" by simp
  let ?jm' = "if m_timer_interval jm2 > 0 then jm2\<lparr>m_timer_active := True\<rparr> else jm2"
  have s: "start vt jm = Some (True, ?jm')"
    using nr ne t n by (simp add: start_def Let_def)
  have rq2: "\<forall>w. ready vt ?jm' w = ready vt jm w"
    using d' by (simp add: ready_def)
  from d' have "m_eError jm2 =
      (if ?k < n \<and> 0 + int ?k = 0 then jmeNoJobReady else jmeNoError)"
    by blast
  then have e0: "m_eError jm2 = (if ?k < n \<and> ?k = 0 then jmeNoJobReady else jmeNoError)"
    by simp
  have ke: "(?k < n \<and> ?k = 0) = (0 < n \<and> ?R = [])"
    by (cases "?R = []") (auto simp add: min_def)
  have e: "m_eError ?jm' = (if 0 < n \<and> ?R = [] then jmeNoJobReady else jmeNoError)"
    using e0 unfolding ke by simp
  have fp: "m_eStatus ?jm' = sRunning \<and> m_iFinished ?jm' = 0 \<and> m_iErrors ?jm' = 0
      \<and> m_bStop_jm ?jm' = False \<and> emitted ?jm' = emitted jm
      \<and> m_timer_active ?jm' = (0 < m_timer_interval jm \<or> m_timer_active jm)
      \<and> m_timer_interval ?jm' = m_timer_interval jm
      \<and> m_iAllowedErrors ?jm' = m_iAllowedErrors jm
      \<and> m_bReportJobFinish ?jm' = m_bReportJobFinish jm"
    using fr unfolding dispatch_frame_def by auto
  have dp: "m_iStarted ?jm' = int ?k \<and> m_iRunning ?jm' = int ?k
      \<and> m_quIdle ?jm' = drop n (m_quIdle jm) @ drop ?k (take n (m_quIdle jm))
      \<and> length (m_vThreads ?jm') = length (m_vThreads jm)
      \<and> (\<forall>i<?k. m_vThreads ?jm' ! (m_quIdle jm ! i) =
                  Thread_start (int (?R ! i)) (Some (m_vspJobs jm ! (?R ! i)))
                    (m_vThreads jm ! (m_quIdle jm ! i)))
      \<and> (\<forall>t. t \<notin> set (take ?k (m_quIdle jm)) \<longrightarrow> m_vThreads ?jm' ! t = m_vThreads jm ! t)
      \<and> filter (ready vt jm) (m_quWaiting ?jm') = drop ?k ?R
      \<and> mset (m_quWaiting ?jm') + mset (take ?k ?R) = mset (m_quWaiting jm)
      \<and> m_vspJobs ?jm' = m_vspJobs jm"
    using d' by simp
  from s fp dp rq2 e show ?thesis
    unfolding k R by (intro exI [of _ ?jm']) (intro conjI, blast+)
qed

text \<open>
  C4. \<open>start()\<close> returns false and changes nothing when the status is Running.
  Otherwise, with an empty job table, it resets the counters, the stop flag and the
  last error, sets the status to Finished, emits \<open>signalFinished\<close> and returns
  true. With jobs in the table (and a state of the program: the idle queue holds the
  threads that the \<open>min(threads, jobs)\<close> calls of \<open>startNext()\<close> take, the
  waiting queue holds indices of the job table) it returns true with the status
  Running and the counters of finished jobs and of errors 0; the jobs it started are
  all running, they are at most \<open>min(threads, waiting)\<close> and have left the waiting
  queue, and they are exactly that many when every job is ready to start and all jobs
  of the table wait; the progress timer is active afterwards when its interval is
  positive (and as before otherwise); no signal is emitted.

  Which jobs are dispatched, and to which workers: when a call of \<open>canStart()\<close>
  does not change what \<open>canStart()\<close> returns for any job (so it is for the
  \<open>canStart()\<close> of \<open>AbstractJob\<close>, which only removes finished dependencies), and
  the idle queue holds distinct threads of the manager, let \<open>R\<close> be the waiting jobs
  that can start, in the order of the queue, and \<open>n = min(threads, jobs)\<close>. Then
  \<open>start()\<close> starts exactly the first \<open>k = min(n, length R)\<close> jobs of \<open>R\<close>: the
  \<open>i\<close>-th of them is handed to the \<open>i\<close>-th thread of the idle queue
  (\<open>Thread::start\<close> with the job's index and pointer) and no other thread changes;
  these \<open>k\<close> threads leave the idle queue and the other \<open>n - k\<close> that were taken
  return to its end; the started jobs leave the waiting queue and no other job does;
  the jobs of \<open>R\<close> that were not started still wait, in their order; and
  \<open>jmeNoJobReady\<close> is recorded exactly when there is a thread and no job can start.
\<close>

theorem start_resets_and_dispatches:
  "(m_eStatus jm = sRunning \<longrightarrow> start vt jm = Some (False, jm))
   \<and> (m_eStatus jm \<noteq> sRunning \<and> m_vspJobs jm = [] \<longrightarrow>
        start vt jm =
          Some (True, jm\<lparr>m_eStatus := sFinished, m_iErrors := 0, m_iStarted := 0,
                         m_iFinished := 0, m_iRunning := 0, m_bStop_jm := False,
                         m_eError := jmeNoError, emitted := emitted jm @ [signalFinished]\<rparr>))
   \<and> (m_eStatus jm \<noteq> sRunning \<and> m_vspJobs jm \<noteq> []
        \<and> min (length (m_vThreads jm)) (length (m_vspJobs jm)) \<le> length (m_quIdle jm)
        \<and> (\<forall>w\<in>set (m_quWaiting jm). w < length (m_vspJobs jm)) \<longrightarrow>
        (\<exists>jm'. start vt jm = Some (True, jm')
           \<and> m_eStatus jm' = sRunning \<and> m_iFinished jm' = 0 \<and> m_iErrors jm' = 0
           \<and> m_bStop_jm jm' = False
           \<and> m_iRunning jm' = m_iStarted jm' \<and> 0 \<le> m_iStarted jm'
           \<and> m_iStarted jm' \<le> int (min (length (m_vThreads jm)) (length (m_quWaiting jm)))
           \<and> int (length (m_quWaiting jm')) = int (length (m_quWaiting jm)) - m_iStarted jm'
           \<and> ((\<forall>h a. fst (v_canStart vt h a)) \<and> length (m_quWaiting jm) = length (m_vspJobs jm)
                \<longrightarrow> m_iStarted jm' = int (min (length (m_vThreads jm)) (length (m_quWaiting jm))))
           \<and> m_timer_active jm' = (0 < m_timer_interval jm \<or> m_timer_active jm)
           \<and> emitted jm' = emitted jm \<and> m_vspJobs jm' = m_vspJobs jm))
   \<and> (m_eStatus jm \<noteq> sRunning \<and> m_vspJobs jm \<noteq> []
        \<and> n = min (length (m_vThreads jm)) (length (m_vspJobs jm))
        \<and> n \<le> length (m_quIdle jm) \<and> distinct (m_quIdle jm)
        \<and> (\<forall>t\<in>set (m_quIdle jm). t < length (m_vThreads jm))
        \<and> (\<forall>w\<in>set (m_quWaiting jm). w < length (m_vspJobs jm))
        \<and> (\<forall>h a b. fst (v_canStart vt (snd (v_canStart vt h a)) b) = fst (v_canStart vt h b))
        \<and> R = filter (ready vt jm) (m_quWaiting jm) \<and> k = min n (length R) \<longrightarrow>
        (\<exists>jm'. start vt jm = Some (True, jm')
           \<and> m_eStatus jm' = sRunning \<and> m_iStarted jm' = int k \<and> m_iRunning jm' = int k
           \<and> m_iFinished jm' = 0 \<and> m_iErrors jm' = 0 \<and> m_bStop_jm jm' = False
           \<and> m_quIdle jm' = drop n (m_quIdle jm) @ drop k (take n (m_quIdle jm))
           \<and> length (m_vThreads jm') = length (m_vThreads jm)
           \<and> (\<forall>i<k. m_vThreads jm' ! (m_quIdle jm ! i) =
                       Thread_start (int (R ! i)) (Some (m_vspJobs jm ! (R ! i)))
                         (m_vThreads jm ! (m_quIdle jm ! i)))
           \<and> (\<forall>t. t \<notin> set (take k (m_quIdle jm)) \<longrightarrow> m_vThreads jm' ! t = m_vThreads jm ! t)
           \<and> filter (ready vt jm) (m_quWaiting jm') = drop k R
           \<and> mset (m_quWaiting jm') + mset (take k R) = mset (m_quWaiting jm)
           \<and> (\<forall>w. ready vt jm' w = ready vt jm w)
           \<and> m_eError jm' = (if 0 < n \<and> R = [] then jmeNoJobReady else jmeNoError)
           \<and> m_vspJobs jm' = m_vspJobs jm \<and> emitted jm' = emitted jm
           \<and> m_timer_active jm' = (0 < m_timer_interval jm \<or> m_timer_active jm)
           \<and> m_timer_interval jm' = m_timer_interval jm
           \<and> m_iAllowedErrors jm' = m_iAllowedErrors jm
           \<and> m_bReportJobFinish jm' = m_bReportJobFinish jm))"
proof (intro conjI)
  show "m_eStatus jm = sRunning \<longrightarrow> start vt jm = Some (False, jm)"
    by (simp add: start_def)
  show "m_eStatus jm \<noteq> sRunning \<and> m_vspJobs jm = [] \<longrightarrow>
        start vt jm =
          Some (True, jm\<lparr>m_eStatus := sFinished, m_iErrors := 0, m_iStarted := 0,
                         m_iFinished := 0, m_iRunning := 0, m_bStop_jm := False,
                         m_eError := jmeNoError, emitted := emitted jm @ [signalFinished]\<rparr>)"
    by (simp add: start_def Let_def emit_def)
qed (rule impI, erule start_with_jobs, rule impI, erule start_exact)

theorem start_resets_and_dispatches_witness:
  "start AbstractJob_vtable two_running = Some (False, two_running)
   \<and> start AbstractJob_vtable (JobManager_new fresh_jobs 2 4 7) =
       Some (True, (JobManager_new fresh_jobs 2 4 7)
               \<lparr>m_eStatus := sFinished, m_iErrors := 0, m_iStarted := 0,
                m_iFinished := 0, m_iRunning := 0, m_bStop_jm := False,
                m_eError := jmeNoError,
                emitted := emitted (JobManager_new fresh_jobs 2 4 7) @ [signalFinished]\<rparr>)
   \<and> (\<exists>jm'. start ready_vtable two_threads_four_jobs = Some (True, jm')
         \<and> m_eStatus jm' = sRunning \<and> m_iFinished jm' = 0 \<and> m_iErrors jm' = 0
         \<and> m_iRunning jm' = 2 \<and> m_iStarted jm' = 2
         \<and> int (length (m_quWaiting jm')) = 2 \<and> m_timer_active jm' = False
         \<and> emitted jm' = [])
   \<and> (\<exists>jm'. start AbstractJob_vtable two_threads_dependent = Some (True, jm')
         \<and> m_eStatus jm' = sRunning \<and> m_iStarted jm' = 2 \<and> m_iRunning jm' = 2
         \<and> m_quIdle jm' = []
         \<and> m_vThreads jm' ! 0 = Thread_start 0 (Some 0) Thread_new
         \<and> m_vThreads jm' ! 1 = Thread_start 2 (Some 2) Thread_new
         \<and> filter (ready AbstractJob_vtable two_threads_dependent) (m_quWaiting jm') = [3]
         \<and> mset (m_quWaiting jm') + {#0, 2#} = {#0, 1, 2, 3#}
         \<and> m_eError jm' = jmeNoError)"
proof -
  have r: "m_eStatus two_running = sRunning" by code_simp
  have c1: "start AbstractJob_vtable two_running = Some (False, two_running)"
    using start_resets_and_dispatches [of two_running AbstractJob_vtable] r by blast
  have e: "m_eStatus (JobManager_new fresh_jobs 2 4 7) \<noteq> sRunning
      \<and> m_vspJobs (JobManager_new fresh_jobs 2 4 7) = []"
    by code_simp
  note c2 = conjunct1 [OF conjunct2 [OF
        start_resets_and_dispatches [of "JobManager_new fresh_jobs 2 4 7" AbstractJob_vtable]],
      rule_format, OF e]
  have h: "m_eStatus two_threads_four_jobs \<noteq> sRunning \<and> m_vspJobs two_threads_four_jobs \<noteq> []
        \<and> min (length (m_vThreads two_threads_four_jobs)) (length (m_vspJobs two_threads_four_jobs))
            \<le> length (m_quIdle two_threads_four_jobs)
        \<and> (\<forall>w\<in>set (m_quWaiting two_threads_four_jobs). w < length (m_vspJobs two_threads_four_jobs))"
    by code_simp
  have rdy: "(\<forall>h a. fst (v_canStart ready_vtable h a))
      \<and> length (m_quWaiting two_threads_four_jobs) = length (m_vspJobs two_threads_four_jobs)"
    by (simp add: ready_vtable_def two_threads_four_jobs_def appendJob_def appendJobUnsafe_def
        JobManager_new_def allocateThreads_def)
  have v: "int (min (length (m_vThreads two_threads_four_jobs)) (length (m_quWaiting two_threads_four_jobs))) = 2"
    "int (length (m_quWaiting two_threads_four_jobs)) = 4"
    "m_timer_interval two_threads_four_jobs = 0" "m_timer_active two_threads_four_jobs = False"
    "emitted two_threads_four_jobs = []"
    by code_simp+
  note t3 = conjunct1 [OF conjunct2 [OF conjunct2 [OF
        start_resets_and_dispatches [of two_threads_four_jobs ready_vtable]]], THEN mp, OF h]
  then obtain jm' where j: "start ready_vtable two_threads_four_jobs = Some (True, jm')"
    "m_eStatus jm' = sRunning" "m_iFinished jm' = 0" "m_iErrors jm' = 0"
    "m_iRunning jm' = m_iStarted jm'"
    "int (length (m_quWaiting jm')) = int (length (m_quWaiting two_threads_four_jobs)) - m_iStarted jm'"
    "(\<forall>h a. fst (v_canStart ready_vtable h a))
       \<and> length (m_quWaiting two_threads_four_jobs) = length (m_vspJobs two_threads_four_jobs)
       \<longrightarrow> m_iStarted jm' = int (min (length (m_vThreads two_threads_four_jobs))
                                    (length (m_quWaiting two_threads_four_jobs)))"
    "m_timer_active jm' = (0 < m_timer_interval two_threads_four_jobs \<or> m_timer_active two_threads_four_jobs)"
    "emitted jm' = emitted two_threads_four_jobs"
    by blast
  from j(7) rdy v(1) have s: "m_iStarted jm' = 2" by simp
  have c3: "\<exists>jm'. start ready_vtable two_threads_four_jobs = Some (True, jm')
         \<and> m_eStatus jm' = sRunning \<and> m_iFinished jm' = 0 \<and> m_iErrors jm' = 0
         \<and> m_iRunning jm' = 2 \<and> m_iStarted jm' = 2
         \<and> int (length (m_quWaiting jm')) = 2 \<and> m_timer_active jm' = False
         \<and> emitted jm' = []"
    using j(1,2,3,4,5,6,8,9) s v by (intro exI [of _ jm']) simp
  have d: "m_eStatus two_threads_dependent \<noteq> sRunning" "m_vspJobs two_threads_dependent \<noteq> []"
    "(2::nat) = min (length (m_vThreads two_threads_dependent)) (length (m_vspJobs two_threads_dependent))"
    "2 \<le> length (m_quIdle two_threads_dependent)" "distinct (m_quIdle two_threads_dependent)"
    "\<forall>t\<in>set (m_quIdle two_threads_dependent). t < length (m_vThreads two_threads_dependent)"
    "\<forall>w\<in>set (m_quWaiting two_threads_dependent). w < length (m_vspJobs two_threads_dependent)"
    "[0, 2, 3] = filter (ready AbstractJob_vtable two_threads_dependent) (m_quWaiting two_threads_dependent)"
    by code_simp+
  have dk: "(2::nat) = min 2 (length [0::nat, 2, 3])" by simp
  have hd: "m_eStatus two_threads_dependent \<noteq> sRunning \<and> m_vspJobs two_threads_dependent \<noteq> []
        \<and> 2 = min (length (m_vThreads two_threads_dependent)) (length (m_vspJobs two_threads_dependent))
        \<and> 2 \<le> length (m_quIdle two_threads_dependent) \<and> distinct (m_quIdle two_threads_dependent)
        \<and> (\<forall>t\<in>set (m_quIdle two_threads_dependent). t < length (m_vThreads two_threads_dependent))
        \<and> (\<forall>w\<in>set (m_quWaiting two_threads_dependent). w < length (m_vspJobs two_threads_dependent))
        \<and> (\<forall>h a b. fst (v_canStart AbstractJob_vtable (snd (v_canStart AbstractJob_vtable h a)) b)
               = fst (v_canStart AbstractJob_vtable h b))
        \<and> [0, 2, 3] = filter (ready AbstractJob_vtable two_threads_dependent)
                           (m_quWaiting two_threads_dependent)
        \<and> 2 = min 2 (length [0::nat, 2, 3])"
    using d dk AbstractJob_vtable_stable by (intro conjI)
  have dv: "m_quIdle two_threads_dependent = [0, 1]"
    "m_vThreads two_threads_dependent = [Thread_new, Thread_new]"
    "m_vspJobs two_threads_dependent = [0, 1, 2, 3]"
    "m_quWaiting two_threads_dependent = [0, 1, 2, 3]"
    by code_simp+
  note t4 = conjunct2 [OF conjunct2 [OF conjunct2 [OF
        start_resets_and_dispatches [of two_threads_dependent AbstractJob_vtable 2 "[0, 2, 3]" 2]]],
      THEN mp, OF hd]
  then obtain jm' where x: "start AbstractJob_vtable two_threads_dependent = Some (True, jm')"
    "m_eStatus jm' = sRunning" "m_iStarted jm' = int 2" "m_iRunning jm' = int 2"
    "m_quIdle jm' = drop 2 (m_quIdle two_threads_dependent)
        @ drop 2 (take 2 (m_quIdle two_threads_dependent))"
    "\<forall>i<2. m_vThreads jm' ! (m_quIdle two_threads_dependent ! i) =
        Thread_start (int ([0, 2, 3] ! i)) (Some (m_vspJobs two_threads_dependent ! ([0, 2, 3] ! i)))
          (m_vThreads two_threads_dependent ! (m_quIdle two_threads_dependent ! i))"
    "filter (ready AbstractJob_vtable two_threads_dependent) (m_quWaiting jm') = drop 2 [0, 2, 3]"
    "mset (m_quWaiting jm') + mset (take 2 [0, 2, 3]) = mset (m_quWaiting two_threads_dependent)"
    "m_eError jm' = (if 0 < (2::nat) \<and> [0::nat, 2, 3] = [] then jmeNoJobReady else jmeNoError)"
    by blast
  have b0: "m_vThreads jm' ! 0 = Thread_start 0 (Some 0) Thread_new"
    using x(6) [rule_format, of 0] by (simp add: dv)
  have b1: "m_vThreads jm' ! 1 = Thread_start 2 (Some 2) Thread_new"
    using x(6) [rule_format, of 1] by (simp add: dv)
  have c4: "\<exists>jm'. start AbstractJob_vtable two_threads_dependent = Some (True, jm')
         \<and> m_eStatus jm' = sRunning \<and> m_iStarted jm' = 2 \<and> m_iRunning jm' = 2
         \<and> m_quIdle jm' = []
         \<and> m_vThreads jm' ! 0 = Thread_start 0 (Some 0) Thread_new
         \<and> m_vThreads jm' ! 1 = Thread_start 2 (Some 2) Thread_new
         \<and> filter (ready AbstractJob_vtable two_threads_dependent) (m_quWaiting jm') = [3]
         \<and> mset (m_quWaiting jm') + {#0, 2#} = {#0, 1, 2, 3#}
         \<and> m_eError jm' = jmeNoError"
    using x(1,2,3,4,5,7,8,9) b0 b1 by (intro exI [of _ jm']) (simp add: dv)
  from c1 c2 c3 c4 show ?thesis by (intro conjI)
qed

subsection \<open>stop() and checkNext()\<close>

lemma job_stop_idem: "job_stop (job_stop j) = job_stop j"
  by (simp add: job_stop_def)

lemma stop_loop_effect:
  "stop_loop ts jm = Some jm' \<Longrightarrow>
     jm' = jm\<lparr>heap := heap jm'\<rparr>
     \<and> (\<forall>t\<in>set ts. 0 \<le> jobIndex t \<longrightarrow> isStopped (heap jm' (m_vspJobs jm ! nat (jobIndex t))))
     \<and> (\<forall>a. isStopped (heap jm a) \<longrightarrow> isStopped (heap jm' a))
     \<and> (\<forall>a. heap jm' a = heap jm a \<or> heap jm' a = job_stop (heap jm a))"
proof (induction ts arbitrary: jm)
  case Nil
  then show ?case by auto
next
  case (Cons t ts)
  show ?case
  proof (cases "0 \<le> jobIndex t")
    case False
    with Cons.prems have "stop_loop ts jm = Some jm'" by simp
    from Cons.IH [OF this] False show ?thesis by auto
  next
    case True
    let ?a = "m_vspJobs jm ! nat (jobIndex t)"
    let ?jm1 = "jm\<lparr>heap := (heap jm)(?a := job_stop (heap jm ?a))\<rparr>"
    from True Cons.prems have r: "jobIndex t < int (length (m_vspJobs jm))"
      by (auto split: if_splits)
    with True Cons.prems have "stop_loop ts ?jm1 = Some jm'" by simp
    note ih = Cons.IH [OF this]
    have e: "jm' = jm\<lparr>heap := heap jm'\<rparr>"
      using conjunct1 [OF ih] by simp
    have mono: "\<forall>a. isStopped (heap ?jm1 a) \<longrightarrow> isStopped (heap jm' a)"
      using ih by blast
    have hd: "isStopped (heap jm' ?a)"
      using mono by (simp add: isStopped_def job_stop_def)
    have tl: "\<forall>t\<in>set ts. 0 \<le> jobIndex t \<longrightarrow> isStopped (heap jm' (m_vspJobs jm ! nat (jobIndex t)))"
      using ih by simp
    have mono': "\<forall>a. isStopped (heap jm a) \<longrightarrow> isStopped (heap jm' a)"
      using mono by (auto simp add: isStopped_def job_stop_def split: if_splits)
    have only: "\<forall>a. heap jm' a = heap jm a \<or> heap jm' a = job_stop (heap jm a)"
    proof
      fix a
      from ih have "heap jm' a = heap ?jm1 a \<or> heap jm' a = job_stop (heap ?jm1 a)" by blast
      then show "heap jm' a = heap jm a \<or> heap jm' a = job_stop (heap jm a)"
        by (cases "a = ?a") (auto simp add: job_stop_idem)
    qed
    from e hd tl mono' only show ?thesis by auto
  qed
qed

lemma stop_loop_total:
  "\<forall>t\<in>set ts. jobIndex t < int (length (m_vspJobs jm)) \<Longrightarrow> stop_loop ts jm \<noteq> None"
  by (induction ts arbitrary: jm) auto

lemma stop_effect:
  assumes a: "stop jm = Some jm'"
  shows "jm' = jm\<lparr>m_bStop_jm := True, heap := heap jm'\<rparr>
     \<and> m_eStatus jm' = m_eStatus jm \<and> emitted jm' = emitted jm \<and> jm_isStopped jm'
     \<and> (\<forall>t\<in>set (m_vThreads jm). 0 \<le> jobIndex t \<longrightarrow>
           isStopped (heap jm' (m_vspJobs jm ! nat (jobIndex t))))
     \<and> (\<forall>a. heap jm' a = heap jm a \<or> heap jm' a = job_stop (heap jm a))"
proof -
  from a have l: "stop_loop (m_vThreads jm) (jm\<lparr>m_bStop_jm := True\<rparr>) = Some jm'"
    by (simp add: stop_def)
  note eff = stop_loop_effect [OF l]
  have e0: "jm' = jm\<lparr>m_bStop_jm := True\<rparr>\<lparr>heap := heap jm'\<rparr>"
    using eff by (rule conjunct1)
  then have e: "jm' = jm\<lparr>m_bStop_jm := True, heap := heap jm'\<rparr>" .
  have 1: "m_eStatus jm' = m_eStatus jm" using arg_cong [OF e, of m_eStatus] by simp
  have 2: "emitted jm' = emitted jm" using arg_cong [OF e, of emitted] by simp
  have 3: "jm_isStopped jm'" using arg_cong [OF e, of m_bStop_jm] by (simp add: jm_isStopped_def)
  have 4: "\<forall>t\<in>set (m_vThreads jm). 0 \<le> jobIndex t \<longrightarrow>
           isStopped (heap jm' (m_vspJobs jm ! nat (jobIndex t)))"
    using conjunct1 [OF conjunct2 [OF eff]] by simp
  have 5: "\<forall>a. heap jm' a = heap jm a \<or> heap jm' a = job_stop (heap jm a)"
    using conjunct2 [OF conjunct2 [OF conjunct2 [OF eff]]] by simp
  show ?thesis
    apply (rule conjI [OF e])
    apply (rule conjI [OF 1])
    apply (rule conjI [OF 2])
    apply (rule conjI [OF 3])
    apply (rule conjI [OF 4])
    apply (rule 5)
    done
qed

lemma stop_total:
  assumes "\<forall>t\<in>set (m_vThreads jm). jobIndex t < int (length (m_vspJobs jm))"
  shows "stop jm \<noteq> None"
  unfolding stop_def by (rule stop_loop_total) (use assms in simp)

lemma checkNext_cap_exceeded:
  "0 \<le> m_iAllowedErrors jm \<Longrightarrow> m_iAllowedErrors jm < m_iErrors jm \<Longrightarrow>
     checkNext vt jm =
       Some (if m_iRunning jm = 0
             then jm\<lparr>m_eError := jmeTooManyErrors, m_eStatus := sError,
                     emitted := emitted jm @ [signalError jmeTooManyErrors]\<rparr>
             else jm\<lparr>m_eError := jmeTooManyErrors\<rparr>)"
  by (simp add: checkNext_def handleError_def emit_def Let_def)

lemma checkNext_stopped_only_when_idle:
  assumes "checkNext vt jm = Some jm'" "m_eStatus jm' = sStopped" "m_eStatus jm \<noteq> sStopped"
  shows "m_bStop_jm jm \<and> m_iRunning jm = 0"
proof -
  let ?jm1 = "if m_iAllowedErrors jm \<ge> 0 \<and> m_iErrors jm > m_iAllowedErrors jm
                 then jm\<lparr>m_eError := jmeTooManyErrors\<rparr> else jm"
  have st1: "m_eStatus ?jm1 = m_eStatus jm" "m_bStop_jm ?jm1 = m_bStop_jm jm"
     "m_iRunning ?jm1 = m_iRunning jm" by simp_all
  show ?thesis
  proof (cases "fst (handleError ?jm1)")
    case True
    with assms show ?thesis
      by (auto simp add: checkNext_def handleError_def emit_def Let_def split: if_splits)
  next
    case False
    then have h: "handleError ?jm1 = (False, ?jm1)"
      by (auto simp add: handleError_def split: if_splits)
    show ?thesis
    proof (cases "m_bStop_jm jm")
      case True
      with assms h show ?thesis
        by (auto simp add: checkNext_def emit_def Let_def split: if_splits)
    next
      case nostop: False
      show ?thesis
      proof (cases "m_iFinished jm < int (length (m_vspJobs jm))")
        case False
        with assms h nostop show ?thesis
          by (auto simp add: checkNext_def emit_def Let_def split: if_splits)
      next
        case True
        with assms h nostop obtain jm3 where
          s: "startNext vt ?jm1 = Some jm3" and j: "jm' = snd (handleError jm3)"
          by (auto simp add: checkNext_def Let_def split: if_splits option.splits)
        from startNext_frame [OF s] have "m_eStatus jm3 = m_eStatus jm"
          unfolding dispatch_frame_def by (auto split: if_splits)
        with j assms(2,3) show ?thesis
          by (auto simp add: handleError_def emit_def split: if_splits)
      qed
    qed
  qed
qed

lemma checkNext_with_stop_flag:
  assumes "m_bStop_jm jm"
  shows "\<exists>jm'. checkNext vt jm = Some jm'
     \<and> m_iStarted jm' = m_iStarted jm \<and> m_iRunning jm' = m_iRunning jm
     \<and> m_quWaiting jm' = m_quWaiting jm \<and> m_vThreads jm' = m_vThreads jm
     \<and> m_bStop_jm jm'"
  using assms
  by (auto simp add: checkNext_def handleError_def emit_def Let_def)

lemma stop_loop_out_of_range:
  "\<exists>t\<in>set ts. int (length (m_vspJobs jm)) \<le> jobIndex t \<Longrightarrow> stop_loop ts jm = None"
proof (induction ts arbitrary: jm)
  case Nil
  then show ?case by simp
next
  case (Cons t ts)
  show ?case
  proof (cases "int (length (m_vspJobs jm)) \<le> jobIndex t")
    case True
    then show ?thesis by simp
  next
    case False
    with Cons.prems have r: "\<exists>t\<in>set ts. int (length (m_vspJobs jm)) \<le> jobIndex t" by auto
    show ?thesis
    proof (cases "0 \<le> jobIndex t")
      case True
      let ?jm1 = "jm\<lparr>heap := (heap jm)(m_vspJobs jm ! nat (jobIndex t) :=
                      job_stop (heap jm (m_vspJobs jm ! nat (jobIndex t))))\<rparr>"
      have "stop_loop ts ?jm1 = None"
        by (rule Cons.IH) (use r in simp)
      with True False show ?thesis by simp
    next
      case neg: False
      have "stop_loop ts jm = None" by (rule Cons.IH [OF r])
      with neg show ?thesis by simp
    qed
  qed
qed

lemma stop_out_of_range:
  assumes "\<exists>t\<in>set (m_vThreads jm). int (length (m_vspJobs jm)) \<le> jobIndex t"
  shows "stop jm = None"
  unfolding stop_def by (rule stop_loop_out_of_range) (use assms in simp)

lemma stop_loop_heap:
  "stop_loop ts jm = Some jm' \<Longrightarrow>
     heap jm' =
       (\<lambda>a. if \<exists>t\<in>set ts. 0 \<le> jobIndex t \<and> m_vspJobs jm ! nat (jobIndex t) = a
            then job_stop (heap jm a) else heap jm a)"
proof (induction ts arbitrary: jm)
  case Nil
  then show ?case by auto
next
  case (Cons t ts)
  show ?case
  proof (cases "0 \<le> jobIndex t")
    case False
    with Cons.prems have "stop_loop ts jm = Some jm'" by simp
    from Cons.IH [OF this] False show ?thesis by (intro ext) auto
  next
    case True
    let ?a = "m_vspJobs jm ! nat (jobIndex t)"
    let ?jm1 = "jm\<lparr>heap := (heap jm)(?a := job_stop (heap jm ?a))\<rparr>"
    from True Cons.prems have r: "jobIndex t < int (length (m_vspJobs jm))"
      by (auto split: if_splits)
    with True Cons.prems have "stop_loop ts ?jm1 = Some jm'" by simp
    from Cons.IH [OF this]
    have ih: "heap jm' =
       (\<lambda>a. if \<exists>t\<in>set ts. 0 \<le> jobIndex t \<and> m_vspJobs jm ! nat (jobIndex t) = a
            then job_stop (heap ?jm1 a) else heap ?jm1 a)"
      by simp
    show ?thesis
      unfolding ih using True by (intro ext) (auto simp add: job_stop_idem)
  qed
qed

lemma stop_returns:
  assumes w: "\<forall>t\<in>set (m_vThreads jm). jobIndex t < int (length (m_vspJobs jm))"
  shows "\<exists>jm'. stop jm = Some jm'
     \<and> jm' = jm\<lparr>m_bStop_jm := True, heap := heap jm'\<rparr>
     \<and> m_eStatus jm' = m_eStatus jm \<and> emitted jm' = emitted jm \<and> jm_isStopped jm'
     \<and> (\<forall>t\<in>set (m_vThreads jm). 0 \<le> jobIndex t \<longrightarrow>
           isStopped (heap jm' (m_vspJobs jm ! nat (jobIndex t))))
     \<and> (\<forall>a. heap jm' a = heap jm a \<or> heap jm' a = job_stop (heap jm a))
     \<and> heap jm' =
         (\<lambda>a. if \<exists>t\<in>set (m_vThreads jm). 0 \<le> jobIndex t \<and> m_vspJobs jm ! nat (jobIndex t) = a
              then job_stop (heap jm a) else heap jm a)"
proof -
  from stop_total [OF w] obtain jm' where s: "stop jm = Some jm'" by auto
  from s have l: "stop_loop (m_vThreads jm) (jm\<lparr>m_bStop_jm := True\<rparr>) = Some jm'"
    by (simp add: stop_def)
  have h: "heap jm' =
         (\<lambda>a. if \<exists>t\<in>set (m_vThreads jm). 0 \<le> jobIndex t \<and> m_vspJobs jm ! nat (jobIndex t) = a
              then job_stop (heap jm a) else heap jm a)"
    using stop_loop_heap [OF l] by (simp cong: if_cong)
  from stop_effect [OF s] s h show ?thesis by (intro exI [of _ jm'] conjI) blast+
qed

lemma checkNext_stop_exact:
  assumes s: "m_bStop_jm jm"
  shows "checkNext vt jm =
     Some (if (0 \<le> m_iAllowedErrors jm \<and> m_iAllowedErrors jm < m_iErrors jm)
              \<or> m_eError jm \<noteq> jmeNoError
           then (if m_iRunning jm = 0
                 then jm\<lparr>m_eError := (if 0 \<le> m_iAllowedErrors jm \<and> m_iAllowedErrors jm < m_iErrors jm
                                        then jmeTooManyErrors else m_eError jm),
                         m_eStatus := sError,
                         emitted := emitted jm @
                           [signalError (if 0 \<le> m_iAllowedErrors jm \<and> m_iAllowedErrors jm < m_iErrors jm
                                         then jmeTooManyErrors else m_eError jm)]\<rparr>
                 else jm\<lparr>m_eError := (if 0 \<le> m_iAllowedErrors jm \<and> m_iAllowedErrors jm < m_iErrors jm
                                        then jmeTooManyErrors else m_eError jm)\<rparr>)
           else (if m_iRunning jm = 0
                 then jm\<lparr>m_eStatus := sStopped, emitted := emitted jm @ [signalStopped]\<rparr>
                 else jm))"
proof (cases "0 \<le> m_iAllowedErrors jm \<and> m_iAllowedErrors jm < m_iErrors jm")
  case True
  show ?thesis
    unfolding checkNext_def Let_def if_P [OF True]
    using True by (simp add: handleError_def emit_def)
next
  case False
  then have n: "(0 \<le> m_iAllowedErrors jm \<and> m_iAllowedErrors jm < m_iErrors jm) = False"
    by blast
  show ?thesis
  proof (cases "m_eError jm = jmeNoError")
    case e: True
    show ?thesis
      unfolding checkNext_def Let_def n
      using s e by (simp add: handleError_def emit_def)
  next
    case e: False
    show ?thesis
      unfolding checkNext_def Let_def n
      using s e by (simp add: handleError_def emit_def)
  qed
qed

lemma checkNext_stopped_no_error:
  assumes c: "checkNext vt jm = Some jm'" and a: "m_eStatus jm' = sStopped"
    and b: "m_eStatus jm \<noteq> sStopped"
  shows "m_eError jm = jmeNoError
     \<and> \<not> (0 \<le> m_iAllowedErrors jm \<and> m_iAllowedErrors jm < m_iErrors jm)"
proof -
  from checkNext_stopped_only_when_idle [OF c a b] have s: "m_bStop_jm jm" by simp
  note x = checkNext_stop_exact [OF s, of vt]
  show ?thesis
  proof (rule ccontr)
    assume "\<not> (m_eError jm = jmeNoError
       \<and> \<not> (0 \<le> m_iAllowedErrors jm \<and> m_iAllowedErrors jm < m_iErrors jm))"
    then have p: "(0 \<le> m_iAllowedErrors jm \<and> m_iAllowedErrors jm < m_iErrors jm)
              \<or> m_eError jm \<noteq> jmeNoError" by blast
    have "m_eStatus jm' = sError \<or> m_eStatus jm' = m_eStatus jm"
      using x c unfolding if_P [OF p] by (cases "m_iRunning jm = 0") auto
    with a b show False by auto
  qed
qed

text \<open>
  C5, as the code has it. \<open>stop()\<close> never changes the status and emits nothing,
  whether jobs are running or not. When the job index of every thread is within the job
  table, it returns, having set the stop flag (which \<open>isStopped()\<close> returns) and
  called \<open>stop()\<close> of the job at the job index of every thread that has one (an
  index that is not negative), of these jobs and no other, and it changes nothing else.
  A thread keeps the index of its last job, so after \<open>clear()\<close> an index may lie
  beyond the table; the source then reads the table out of its range and \<open>stop()\<close>
  has no defined result. Once the stop flag is set, a dispatch step \<open>checkNext()\<close>
  starts no job: the counters of started and running jobs, the waiting queue and the
  threads stay as they are. What the step does is fixed by the errors and the running
  count: with an error pending (the error cap exceeded, or an error recorded before) it
  records the error and, when the running count is 0, sets the status to Error and
  emits \<open>signalError\<close>; with no error pending it sets the status to Stopped and
  emits \<open>signalStopped\<close> when the running count is 0, and changes nothing when it is
  not. And a dispatch step only ever moves the status to Stopped when the stop flag is
  set, the running count is 0 and no error is pending.
\<close>

theorem stop_sets_flag_checkNext_stops:
  "((\<forall>t\<in>set (m_vThreads jm). jobIndex t < int (length (m_vspJobs jm))) \<longrightarrow>
      (\<exists>jm'. stop jm = Some jm'
         \<and> jm' = jm\<lparr>m_bStop_jm := True, heap := heap jm'\<rparr>
         \<and> m_eStatus jm' = m_eStatus jm \<and> emitted jm' = emitted jm \<and> jm_isStopped jm'
         \<and> (\<forall>t\<in>set (m_vThreads jm). 0 \<le> jobIndex t \<longrightarrow>
               isStopped (heap jm' (m_vspJobs jm ! nat (jobIndex t))))
         \<and> (\<forall>a. heap jm' a = heap jm a \<or> heap jm' a = job_stop (heap jm a))
         \<and> heap jm' =
             (\<lambda>a. if \<exists>t\<in>set (m_vThreads jm). 0 \<le> jobIndex t
                         \<and> m_vspJobs jm ! nat (jobIndex t) = a
                  then job_stop (heap jm a) else heap jm a)))
   \<and> ((\<exists>t\<in>set (m_vThreads jm). int (length (m_vspJobs jm)) \<le> jobIndex t) \<longrightarrow>
        stop jm = None)
   \<and> (m_bStop_jm jm \<longrightarrow>
        checkNext vt jm =
          Some (if (0 \<le> m_iAllowedErrors jm \<and> m_iAllowedErrors jm < m_iErrors jm)
                   \<or> m_eError jm \<noteq> jmeNoError
                then (if m_iRunning jm = 0
                      then jm\<lparr>m_eError := (if 0 \<le> m_iAllowedErrors jm \<and> m_iAllowedErrors jm < m_iErrors jm
                                             then jmeTooManyErrors else m_eError jm),
                              m_eStatus := sError,
                              emitted := emitted jm @
                                [signalError (if 0 \<le> m_iAllowedErrors jm \<and> m_iAllowedErrors jm < m_iErrors jm
                                              then jmeTooManyErrors else m_eError jm)]\<rparr>
                      else jm\<lparr>m_eError := (if 0 \<le> m_iAllowedErrors jm \<and> m_iAllowedErrors jm < m_iErrors jm
                                             then jmeTooManyErrors else m_eError jm)\<rparr>)
                else (if m_iRunning jm = 0
                      then jm\<lparr>m_eStatus := sStopped, emitted := emitted jm @ [signalStopped]\<rparr>
                      else jm)))
   \<and> (m_bStop_jm jm \<longrightarrow>
        (\<exists>jm2. checkNext vt jm = Some jm2
           \<and> m_iStarted jm2 = m_iStarted jm \<and> m_iRunning jm2 = m_iRunning jm
           \<and> m_quWaiting jm2 = m_quWaiting jm \<and> m_vThreads jm2 = m_vThreads jm
           \<and> m_bStop_jm jm2))
   \<and> (checkNext vt jm = Some jm3 \<and> m_eStatus jm3 = sStopped \<and> m_eStatus jm \<noteq> sStopped \<longrightarrow>
        m_bStop_jm jm \<and> m_iRunning jm = 0 \<and> m_eError jm = jmeNoError
        \<and> \<not> (0 \<le> m_iAllowedErrors jm \<and> m_iAllowedErrors jm < m_iErrors jm))"
proof (intro conjI)
  show "(\<forall>t\<in>set (m_vThreads jm). jobIndex t < int (length (m_vspJobs jm))) \<longrightarrow>
      (\<exists>jm'. stop jm = Some jm'
         \<and> jm' = jm\<lparr>m_bStop_jm := True, heap := heap jm'\<rparr>
         \<and> m_eStatus jm' = m_eStatus jm \<and> emitted jm' = emitted jm \<and> jm_isStopped jm'
         \<and> (\<forall>t\<in>set (m_vThreads jm). 0 \<le> jobIndex t \<longrightarrow>
               isStopped (heap jm' (m_vspJobs jm ! nat (jobIndex t))))
         \<and> (\<forall>a. heap jm' a = heap jm a \<or> heap jm' a = job_stop (heap jm a))
         \<and> heap jm' =
             (\<lambda>a. if \<exists>t\<in>set (m_vThreads jm). 0 \<le> jobIndex t
                         \<and> m_vspJobs jm ! nat (jobIndex t) = a
                  then job_stop (heap jm a) else heap jm a))"
    by (rule impI) (erule stop_returns)
  show "(\<exists>t\<in>set (m_vThreads jm). int (length (m_vspJobs jm)) \<le> jobIndex t) \<longrightarrow>
        stop jm = None"
    by (rule impI) (erule stop_out_of_range)
  show "m_bStop_jm jm \<longrightarrow>
        checkNext vt jm =
          Some (if (0 \<le> m_iAllowedErrors jm \<and> m_iAllowedErrors jm < m_iErrors jm)
                   \<or> m_eError jm \<noteq> jmeNoError
                then (if m_iRunning jm = 0
                      then jm\<lparr>m_eError := (if 0 \<le> m_iAllowedErrors jm \<and> m_iAllowedErrors jm < m_iErrors jm
                                             then jmeTooManyErrors else m_eError jm),
                              m_eStatus := sError,
                              emitted := emitted jm @
                                [signalError (if 0 \<le> m_iAllowedErrors jm \<and> m_iAllowedErrors jm < m_iErrors jm
                                              then jmeTooManyErrors else m_eError jm)]\<rparr>
                      else jm\<lparr>m_eError := (if 0 \<le> m_iAllowedErrors jm \<and> m_iAllowedErrors jm < m_iErrors jm
                                             then jmeTooManyErrors else m_eError jm)\<rparr>)
                else (if m_iRunning jm = 0
                      then jm\<lparr>m_eStatus := sStopped, emitted := emitted jm @ [signalStopped]\<rparr>
                      else jm))"
    by (rule impI) (erule checkNext_stop_exact)
  show "m_bStop_jm jm \<longrightarrow>
        (\<exists>jm2. checkNext vt jm = Some jm2
           \<and> m_iStarted jm2 = m_iStarted jm \<and> m_iRunning jm2 = m_iRunning jm
           \<and> m_quWaiting jm2 = m_quWaiting jm \<and> m_vThreads jm2 = m_vThreads jm
           \<and> m_bStop_jm jm2)"
    by (rule impI) (erule checkNext_with_stop_flag)
  show "checkNext vt jm = Some jm3 \<and> m_eStatus jm3 = sStopped \<and> m_eStatus jm \<noteq> sStopped \<longrightarrow>
        m_bStop_jm jm \<and> m_iRunning jm = 0 \<and> m_eError jm = jmeNoError
        \<and> \<not> (0 \<le> m_iAllowedErrors jm \<and> m_iAllowedErrors jm < m_iErrors jm)"
  proof (rule impI, elim conjE)
    assume c: "checkNext vt jm = Some jm3" and a: "m_eStatus jm3 = sStopped"
      and b: "m_eStatus jm \<noteq> sStopped"
    from checkNext_stopped_only_when_idle [OF c a b] checkNext_stopped_no_error [OF c a b]
    show "m_bStop_jm jm \<and> m_iRunning jm = 0 \<and> m_eError jm = jmeNoError
        \<and> \<not> (0 \<le> m_iAllowedErrors jm \<and> m_iAllowedErrors jm < m_iErrors jm)"
      by (intro conjI) blast+
  qed
qed

theorem stop_sets_flag_checkNext_stops_witness:
  "stop two_running = Some stop_requested
   \<and> m_eStatus stop_requested = m_eStatus two_running \<and> emitted stop_requested = emitted two_running
   \<and> jm_isStopped stop_requested
   \<and> isStopped (heap stop_requested 0) \<and> isStopped (heap stop_requested 1)
   \<and> m_iRunning stop_requested = 2
   \<and> stop one_job_cleared_jm = None
   \<and> checkNext AbstractJob_vtable stop_requested = Some stop_requested
   \<and> checkNext AbstractJob_vtable stop_requested_idle
       = Some (stop_requested_idle\<lparr>m_eStatus := sStopped,
                 emitted := emitted stop_requested_idle @ [signalStopped]\<rparr>)
   \<and> checkNext AbstractJob_vtable stop_requested_error
       = Some (stop_requested_error\<lparr>m_eError := jmeTooManyErrors, m_eStatus := sError,
                 emitted := emitted stop_requested_error @ [signalError jmeTooManyErrors]\<rparr>)"
proof -
  note t = stop_sets_flag_checkNext_stops
  have w: "\<forall>t\<in>set (m_vThreads two_running). jobIndex t < int (length (m_vspJobs two_running))"
    by code_simp
  from conjunct1 [OF t [of two_running], THEN mp, OF w]
  obtain jm' where s0: "stop two_running = Some jm'"
    and a0: "m_eStatus jm' = m_eStatus two_running" "emitted jm' = emitted two_running"
      "jm_isStopped jm'"
      "\<forall>t\<in>set (m_vThreads two_running). 0 \<le> jobIndex t \<longrightarrow>
           isStopped (heap jm' (m_vspJobs two_running ! nat (jobIndex t)))"
    by blast
  from s0 have e: "jm' = stop_requested" by (simp add: stop_requested_def)
  note s = s0 [unfolded e] and a = a0 [unfolded e]
  have th: "m_vThreads two_running = [Thread_start 0 (Some 0) Thread_new, Thread_start 1 (Some 1) Thread_new]"
    "m_vspJobs two_running = [0, 1, 2, 3]"
    by code_simp+
  have g: "isStopped (heap stop_requested 0)" "isStopped (heap stop_requested 1)"
    using a(4) by (simp_all add: th Thread_start_def Thread_new_def jobIndex_def)
  have o: "\<exists>t\<in>set (m_vThreads one_job_cleared_jm).
      int (length (m_vspJobs one_job_cleared_jm)) \<le> jobIndex t"
    by code_simp
  note n = conjunct1 [OF conjunct2 [OF t [of one_job_cleared_jm]], THEN mp, OF o]
  have f: "m_bStop_jm stop_requested" "m_eError stop_requested = jmeNoError"
    "\<not> (0 \<le> m_iAllowedErrors stop_requested \<and> m_iAllowedErrors stop_requested < m_iErrors stop_requested)"
    "m_iRunning stop_requested = 2"
    by code_simp+
  have fi: "m_bStop_jm stop_requested_idle" "m_eError stop_requested_idle = jmeNoError"
    "\<not> (0 \<le> m_iAllowedErrors stop_requested_idle \<and> m_iAllowedErrors stop_requested_idle < m_iErrors stop_requested_idle)"
    "m_iRunning stop_requested_idle = 0"
    by code_simp+
  have fe: "m_bStop_jm stop_requested_error"
    "0 \<le> m_iAllowedErrors stop_requested_error \<and> m_iAllowedErrors stop_requested_error < m_iErrors stop_requested_error"
    "m_iRunning stop_requested_error = 0"
    by code_simp+
  have c2: "checkNext AbstractJob_vtable stop_requested = Some stop_requested"
    using conjunct1 [OF conjunct2 [OF conjunct2 [OF t [of stop_requested AbstractJob_vtable]]], THEN mp, OF f(1)] f
    by simp
  have c3: "checkNext AbstractJob_vtable stop_requested_idle
       = Some (stop_requested_idle\<lparr>m_eStatus := sStopped,
                 emitted := emitted stop_requested_idle @ [signalStopped]\<rparr>)"
    using conjunct1 [OF conjunct2 [OF conjunct2 [OF t [of stop_requested_idle AbstractJob_vtable]]], THEN mp, OF fi(1)] fi
    by simp
  have c4: "checkNext AbstractJob_vtable stop_requested_error
       = Some (stop_requested_error\<lparr>m_eError := jmeTooManyErrors, m_eStatus := sError,
                 emitted := emitted stop_requested_error @ [signalError jmeTooManyErrors]\<rparr>)"
    using conjunct1 [OF conjunct2 [OF conjunct2 [OF t [of stop_requested_error AbstractJob_vtable]]], THEN mp, OF fe(1)] fe
    by simp
  from s a(1,2,3) g f(4) n c2 c3 c4 show ?thesis by (intro conjI)
qed

text \<open>
  The claim as stated fails in two places. \<open>stop()\<close> on a manager that runs no job
  (four jobs appended, never started) leaves the status as it was (Finished, so
  \<open>isFinished()\<close> still holds) and emits no signal. And a waiting job is started
  after \<open>stop()\<close>: in the run above, after \<open>stop()\<close> with two jobs running and
  the jobs 2 and 3 waiting, \<open>addThreads(1)\<close> starts job 2.
\<close>

theorem stop_while_idle_keeps_status:
  "m_iRunning two_threads_four_jobs = 0
   \<and> map_option m_eStatus (stop two_threads_four_jobs) = Some sFinished
   \<and> map_option emitted (stop two_threads_four_jobs) = Some []
   \<and> map_option jm_isFinished (stop two_threads_four_jobs) = Some True
   \<and> map_option (\<lambda>jm. (jm_isStopped jm, m_iStarted jm, m_quWaiting jm)) (stop two_running)
       = Some (True, 2, [2, 3])
   \<and> map_option (\<lambda>jm. (jm_isStopped jm, m_iStarted jm, m_quWaiting jm))
        (Option.bind (stop two_running) (addThreads AbstractJob_vtable 1))
       = Some (True, 3, [3])"
  by code_simp

subsection \<open>handleJobFinished(): the loop over the spawned jobs\<close>

lemma spawn_loop_refines:
  "iInd < length (m_vspJobs jm) \<Longrightarrow>
   spec_spawned vt (m_vspJobs jm ! iInd) (heap jm) ps = Some h' \<Longrightarrow>
     spawn_loop vt iInd jm =
       Some (jm\<lparr>heap := h',
                m_quWaiting := m_quWaiting jm @ [length (m_vspJobs jm) ..< length (m_vspJobs jm) + length ps],
                m_vspJobs := m_vspJobs jm @ ps\<rparr>)"
proof (induction ps arbitrary: jm)
  case Nil
  then show ?case
    by (subst spawn_loop.simps) (auto split: prod.splits option.splits)
next
  case (Cons p ps)
  from Cons.prems(2) obtain h1 where
    n: "v_nextSpawnedJob vt (heap jm) (m_vspJobs jm ! iInd) = (Some p, h1)"
    and r: "spec_spawned vt (m_vspJobs jm ! iInd) (h1(p := setSpawned (h1 p))) ps = Some h'"
    by (auto split: prod.splits option.splits if_splits)
  let ?jm1 = "appendJobUnsafe p (jm\<lparr>heap := h1(p := setSpawned (h1 p))\<rparr>)"
  have i: "iInd < length (m_vspJobs ?jm1)"
    using Cons.prems(1) by (simp add: appendJobUnsafe_def)
  have a: "m_vspJobs ?jm1 ! iInd = m_vspJobs jm ! iInd"
    using Cons.prems(1) by (simp add: appendJobUnsafe_def nth_append)
  have "spawn_loop vt iInd ?jm1 =
       Some (?jm1\<lparr>heap := h',
                m_quWaiting := m_quWaiting ?jm1 @ [length (m_vspJobs ?jm1) ..< length (m_vspJobs ?jm1) + length ps],
                m_vspJobs := m_vspJobs ?jm1 @ ps\<rparr>)"
  proof (rule Cons.IH [OF i])
    have hp: "heap ?jm1 = h1(p := setSpawned (h1 p))"
      by (simp add: appendJobUnsafe_def)
    show "spec_spawned vt (m_vspJobs ?jm1 ! iInd) (heap ?jm1) ps = Some h'"
      by (simp only: a hp r)
  qed
  moreover have "spawn_loop vt iInd jm = spawn_loop vt iInd ?jm1"
    by (subst spawn_loop.simps) (simp add: n)
  moreover have "[length (m_vspJobs jm) ..< length (m_vspJobs jm) + length (p # ps)] =
      length (m_vspJobs jm) # [Suc (length (m_vspJobs jm)) ..< Suc (length (m_vspJobs jm)) + length ps]"
    by (simp add: upt_conv_Cons del: upt_Suc)
  ultimately show ?case
    by (simp add: appendJobUnsafe_def del: upt_Suc)
qed

lemma spec_spawned_marks:
  "spec_spawned vt this h ps = Some h' \<Longrightarrow>
   \<forall>h a b. isSpawned (h b) \<longrightarrow>
      isSpawned (snd (v_nextSpawnedJob vt h a) b) \<or> fst (v_nextSpawnedJob vt h a) = Some b \<Longrightarrow>
     (\<forall>p\<in>set ps. isSpawned (h' p)) \<and> (\<forall>b. isSpawned (h b) \<longrightarrow> isSpawned (h' b))"
proof (induction ps arbitrary: h)
  case Nil
  then have n: "fst (v_nextSpawnedJob vt h this) = None" "snd (v_nextSpawnedJob vt h this) = h'"
    by (auto split: prod.splits option.splits)
  have "\<forall>b. isSpawned (h b) \<longrightarrow> isSpawned (h' b)"
  proof (intro allI impI)
    fix b assume "isSpawned (h b)"
    with Nil.prems(2) have "isSpawned (snd (v_nextSpawnedJob vt h this) b)
        \<or> fst (v_nextSpawnedJob vt h this) = Some b" by blast
    with n show "isSpawned (h' b)" by simp
  qed
  then show ?case by simp
next
  case (Cons p ps)
  from Cons.prems(1) obtain h1 where
    n: "v_nextSpawnedJob vt h this = (Some p, h1)"
    and r: "spec_spawned vt this (h1(p := setSpawned (h1 p))) ps = Some h'"
    by (auto split: prod.splits option.splits if_splits)
  have k: "\<forall>b. isSpawned (h b) \<longrightarrow> isSpawned ((h1(p := setSpawned (h1 p))) b)"
  proof (intro allI impI)
    fix b assume "isSpawned (h b)"
    with Cons.prems(2) have "isSpawned (snd (v_nextSpawnedJob vt h this) b)
        \<or> fst (v_nextSpawnedJob vt h this) = Some b" by blast
    with n have "isSpawned (h1 b) \<or> p = b" by simp
    then show "isSpawned ((h1(p := setSpawned (h1 p))) b)"
      by (auto simp add: isSpawned_def setSpawned_def)
  qed
  have "isSpawned ((h1(p := setSpawned (h1 p))) p)"
    by (simp add: isSpawned_def setSpawned_def)
  with Cons.IH [OF r Cons.prems(2)] k show ?case by auto
qed

lemma spawn_loop_only_after_null:
  assumes r: "spawn_loop vt iInd jm = Some jm'"
  shows "iInd < length (m_vspJobs jm) \<longrightarrow>
       (\<exists>ps. spec_spawned vt (m_vspJobs jm ! iInd) (heap jm) ps = Some (heap jm'))"
proof (rule spawn_loop.raw_induct [where P = "\<lambda>vt iInd jm jm'.
    iInd < length (m_vspJobs jm) \<longrightarrow>
       (\<exists>ps. spec_spawned vt (m_vspJobs jm ! iInd) (heap jm) ps = Some (heap jm'))", OF _ r])
  fix f :: "'a vtable \<Rightarrow> nat \<Rightarrow> 'a JobManager \<Rightarrow> 'a JobManager option"
  fix vt iInd jm jm'
  assume ih: "\<And>vt iInd jm jm'. f vt iInd jm = Some jm' \<Longrightarrow>
      iInd < length (m_vspJobs jm) \<longrightarrow>
       (\<exists>ps. spec_spawned vt (m_vspJobs jm ! iInd) (heap jm) ps = Some (heap jm'))"
  assume c: "(case v_nextSpawnedJob vt (heap jm) (m_vspJobs jm ! iInd) of
      (None, h) \<Rightarrow> Some (jm\<lparr>heap := h\<rparr>)
      | (Some pJob, h) \<Rightarrow>
          f vt iInd (appendJobUnsafe pJob (jm\<lparr>heap := h(pJob := setSpawned (h pJob))\<rparr>))) =
     Some jm'"
  show "iInd < length (m_vspJobs jm) \<longrightarrow>
       (\<exists>ps. spec_spawned vt (m_vspJobs jm ! iInd) (heap jm) ps = Some (heap jm'))"
  proof
    assume i: "iInd < length (m_vspJobs jm)"
    obtain r h1 where n: "v_nextSpawnedJob vt (heap jm) (m_vspJobs jm ! iInd) = (r, h1)"
      by (cases "v_nextSpawnedJob vt (heap jm) (m_vspJobs jm ! iInd)")
    show "\<exists>ps. spec_spawned vt (m_vspJobs jm ! iInd) (heap jm) ps = Some (heap jm')"
    proof (cases r)
      case None
      with c n have "jm' = jm\<lparr>heap := h1\<rparr>" by simp
      then have "heap jm' = h1" by simp
      with n None have "spec_spawned vt (m_vspJobs jm ! iInd) (heap jm) [] = Some (heap jm')"
        by simp
      then show ?thesis ..
    next
      case (Some p)
      let ?jm1 = "appendJobUnsafe p (jm\<lparr>heap := h1(p := setSpawned (h1 p))\<rparr>)"
      from c n Some have c1: "f vt iInd ?jm1 = Some jm'" by simp
      have i1: "iInd < length (m_vspJobs ?jm1)"
        using i by (simp add: appendJobUnsafe_def)
      have a: "m_vspJobs ?jm1 ! iInd = m_vspJobs jm ! iInd"
        using i by (simp add: appendJobUnsafe_def nth_append)
      have hp: "heap ?jm1 = h1(p := setSpawned (h1 p))"
        by (simp add: appendJobUnsafe_def)
      from ih [OF c1] i1 obtain ps where
        "spec_spawned vt (m_vspJobs ?jm1 ! iInd) (heap ?jm1) ps = Some (heap jm')"
        by blast
      then have "spec_spawned vt (m_vspJobs jm ! iInd) (h1(p := setSpawned (h1 p))) ps = Some (heap jm')"
        by (simp only: a hp)
      with n Some have "spec_spawned vt (m_vspJobs jm ! iInd) (heap jm) (p # ps) = Some (heap jm')"
        by simp
      then show ?thesis ..
    qed
  qed
qed

lemma checkNext_keeps_jobs:
  assumes "checkNext vt jm = Some jm'"
  shows "m_vspJobs jm' = m_vspJobs jm"
proof -
  let ?c = "m_iAllowedErrors jm \<ge> 0 \<and> m_iErrors jm > m_iAllowedErrors jm"
  let ?jm1 = "if ?c then jm\<lparr>m_eError := jmeTooManyErrors\<rparr> else jm"
  have j1: "m_vspJobs ?jm1 = m_vspJobs jm" by simp
  have he: "\<And>x. m_vspJobs (snd (handleError x)) = m_vspJobs x"
    by (simp add: handleError_def emit_def)
  let ?jm2 = "snd (handleError ?jm1)"
  have j2: "m_vspJobs ?jm2 = m_vspJobs jm" by (simp only: he j1)
  from assms have c: "(if fst (handleError ?jm1) then Some ?jm2
         else if m_bStop_jm ?jm2 then
           Some (if m_iRunning ?jm2 = 0
                 then emit signalStopped (?jm2\<lparr>m_eStatus := sStopped\<rparr>)
                 else ?jm2)
         else if m_iFinished ?jm2 < int (length (m_vspJobs ?jm2)) then
           (case startNext vt ?jm2 of
              None \<Rightarrow> None
            | Some jm3 \<Rightarrow> Some (snd (handleError jm3)))
         else
           Some ((if m_timer_interval ?jm2 > 0
                  then (emit (signalProgress 100) ?jm2)\<lparr>m_timer_active := False\<rparr>
                  else ?jm2)\<lparr>m_eStatus := sFinished\<rparr>)) = Some jm'"
    unfolding checkNext_def Let_def .
  show ?thesis
  proof (cases "fst (handleError ?jm1)")
    case True
    with c have "jm' = ?jm2" by simp
    then show ?thesis by (simp only: j2)
  next
    case f: False
    show ?thesis
    proof (cases "m_bStop_jm ?jm2")
      case True
      with c f have "jm' = (if m_iRunning ?jm2 = 0
                 then emit signalStopped (?jm2\<lparr>m_eStatus := sStopped\<rparr>)
                 else ?jm2)" by simp
      then have "m_vspJobs jm' = m_vspJobs ?jm2" by (simp add: emit_def)
      then show ?thesis by (simp only: j2)
    next
      case s: False
      show ?thesis
      proof (cases "m_iFinished ?jm2 < int (length (m_vspJobs ?jm2))")
        case False
        with c f s have "jm' = (if m_timer_interval ?jm2 > 0
                  then (emit (signalProgress 100) ?jm2)\<lparr>m_timer_active := False\<rparr>
                  else ?jm2)\<lparr>m_eStatus := sFinished\<rparr>" by simp
        then have "m_vspJobs jm' = m_vspJobs ?jm2" by (simp add: emit_def)
        then show ?thesis by (simp only: j2)
      next
        case True
        with c f s obtain jm3 where
          n: "startNext vt ?jm2 = Some jm3" and j: "jm' = snd (handleError jm3)"
          by (auto split: option.splits)
        from startNext_frame [OF n] have "m_vspJobs jm3 = m_vspJobs ?jm2"
          unfolding dispatch_frame_def by blast
        with j he [of jm3] show ?thesis by (simp only: j2)
      qed
    qed
  qed
qed

lemma checkNext_times_keeps_jobs:
  "checkNext_times vt n jm = Some jm' \<Longrightarrow> m_vspJobs jm' = m_vspJobs jm"
proof (induction n arbitrary: jm)
  case 0
  then show ?case by simp
next
  case (Suc n)
  then obtain jm1 where a: "checkNext vt jm = Some jm1" and b: "checkNext_times vt n jm1 = Some jm'"
    by (auto split: option.splits)
  from Suc.IH [OF b] checkNext_keeps_jobs [OF a] show ?case by simp
qed

lemma handleJobFinished_rest_keeps_jobs:
  assumes "handleJobFinished_rest vt spThr iInd jm = Some jm'"
  shows "m_vspJobs jm' = m_vspJobs jm"
proof -
  let ?jm2 = "jm\<lparr>m_quIdle := m_quIdle jm @ [spThr]\<rparr>"
  let ?jm3 = "?jm2\<lparr>m_iRunning := m_iRunning ?jm2 - 1\<rparr>"
  let ?jm4 = "if isError (heap ?jm3 (m_vspJobs ?jm3 ! iInd))
                 then ?jm3\<lparr>m_iErrors := m_iErrors ?jm3 + 1\<rparr> else ?jm3"
  let ?jm5 = "if m_bReportJobFinish ?jm4
                 then emit (signalJobFinished (m_vspJobs ?jm4 ! iInd)) ?jm4 else ?jm4"
  let ?iN = "max 1 (min (length (m_quWaiting ?jm5)) (length (m_quIdle ?jm5)))"
  have j5: "m_vspJobs ?jm5 = m_vspJobs jm" by (simp add: emit_def)
  from assms obtain jm6 where c: "checkNext_times vt ?iN ?jm5 = Some jm6"
    and j: "jm' = (if m_eStatus jm6 = sFinished then emit signalFinished jm6 else jm6)"
    unfolding handleJobFinished_rest_def Let_def by (auto split: option.splits)
  from j have "m_vspJobs jm' = m_vspJobs jm6" by (simp add: emit_def)
  with checkNext_times_keeps_jobs [OF c] show ?thesis by (simp only: j5)
qed

lemma handleJobFinished_after_drain:
  assumes s: "sender < length (m_vThreads jm)"
    and t: "jobIndex (m_vThreads jm ! sender) = int iInd"
    and i: "iInd < length (m_vspJobs jm)"
    and d: "spec_spawned vt (m_vspJobs jm ! iInd) (heap jm) ps = Some h'"
  shows "spawn_loop vt iInd (jm\<lparr>m_iFinished := m_iFinished jm + 1\<rparr>) =
           Some (jm\<lparr>m_iFinished := m_iFinished jm + 1, heap := h',
                    m_quWaiting := m_quWaiting jm
                      @ [length (m_vspJobs jm) ..< length (m_vspJobs jm) + length ps],
                    m_vspJobs := m_vspJobs jm @ ps\<rparr>)"
    and "handleJobFinished vt sender jm =
           handleJobFinished_rest vt sender iInd
             (jm\<lparr>m_iFinished := m_iFinished jm + 1,
                 m_quWaiting := m_quWaiting jm
                      @ [length (m_vspJobs jm) ..< length (m_vspJobs jm) + length ps],
                 m_vspJobs := m_vspJobs jm @ ps,
                 heap := v_cleanup vt h' (m_vspJobs jm ! iInd)\<rparr>)"
proof -
  let ?jm1 = "jm\<lparr>m_iFinished := m_iFinished jm + 1\<rparr>"
  have "spawn_loop vt iInd ?jm1 =
       Some (?jm1\<lparr>heap := h',
                m_quWaiting := m_quWaiting ?jm1 @ [length (m_vspJobs ?jm1) ..< length (m_vspJobs ?jm1) + length ps],
                m_vspJobs := m_vspJobs ?jm1 @ ps\<rparr>)"
    by (rule spawn_loop_refines) (use i d in simp_all)
  then show l: "spawn_loop vt iInd ?jm1 =
           Some (jm\<lparr>m_iFinished := m_iFinished jm + 1, heap := h',
                    m_quWaiting := m_quWaiting jm
                      @ [length (m_vspJobs jm) ..< length (m_vspJobs jm) + length ps],
                    m_vspJobs := m_vspJobs jm @ ps\<rparr>)"
    by simp
  show "handleJobFinished vt sender jm =
           handleJobFinished_rest vt sender iInd
             (jm\<lparr>m_iFinished := m_iFinished jm + 1,
                 m_quWaiting := m_quWaiting jm
                      @ [length (m_vspJobs jm) ..< length (m_vspJobs jm) + length ps],
                 m_vspJobs := m_vspJobs jm @ ps,
                 heap := v_cleanup vt h' (m_vspJobs jm ! iInd)\<rparr>)"
    using s t i by (simp add: handleJobFinished_def Let_def l nth_append)
qed

lemma TestJobSpawned_keeps_spawned_flags:
  "\<forall>h a b. isSpawned (h b) \<longrightarrow>
     isSpawned (snd (v_nextSpawnedJob TestJobSpawned_vtable h a) b)
     \<or> fst (v_nextSpawnedJob TestJobSpawned_vtable h a) = Some b"
  by (auto simp add: TestJobSpawned_vtable_def AbstractJob_vtable_def
      TestJobSpawned_nextSpawnedJob_def Let_def isSpawned_def)

text \<open>
  C8. \<open>handleJobFinished()\<close> asks the finished job for the jobs it spawns until
  \<open>nextSpawnedJob()\<close> returns null. Whenever the successive calls return the jobs
  \<open>ps\<close> and then null, the loop returns with exactly \<open>ps\<close> appended to the job
  table and their indices appended to the waiting queue, in this order, and nothing
  else of the manager changed but the store; each returned job is marked spawned
  before the next call, and is still marked at the end when \<open>nextSpawnedJob()\<close>
  clears the flag of no job but the one it returns (the flag is private to
  \<open>AbstractJob\<close>). \<open>cleanup()\<close> of the finished job is called after the loop,
  on the store the loop left, and the rest of the handler runs on the result; the job
  table after the whole handler is the table before with \<open>ps\<close> appended.
  Conversely, the loop returns only after a call that returned null.
\<close>

theorem handleJobFinished_drains_spawned_before_cleanup:
  "(sender < length (m_vThreads jm) \<and> jobIndex (m_vThreads jm ! sender) = int iInd
      \<and> iInd < length (m_vspJobs jm)
      \<and> spec_spawned vt (m_vspJobs jm ! iInd) (heap jm) ps = Some h' \<longrightarrow>
        spawn_loop vt iInd (jm\<lparr>m_iFinished := m_iFinished jm + 1\<rparr>) =
           Some (jm\<lparr>m_iFinished := m_iFinished jm + 1, heap := h',
                    m_quWaiting := m_quWaiting jm
                      @ [length (m_vspJobs jm) ..< length (m_vspJobs jm) + length ps],
                    m_vspJobs := m_vspJobs jm @ ps\<rparr>)
      \<and> handleJobFinished vt sender jm =
           handleJobFinished_rest vt sender iInd
             (jm\<lparr>m_iFinished := m_iFinished jm + 1,
                 m_quWaiting := m_quWaiting jm
                      @ [length (m_vspJobs jm) ..< length (m_vspJobs jm) + length ps],
                 m_vspJobs := m_vspJobs jm @ ps,
                 heap := v_cleanup vt h' (m_vspJobs jm ! iInd)\<rparr>)
      \<and> (handleJobFinished vt sender jm = Some jm2 \<longrightarrow> m_vspJobs jm2 = m_vspJobs jm @ ps)
      \<and> ((\<forall>h a b. isSpawned (h b) \<longrightarrow>
              isSpawned (snd (v_nextSpawnedJob vt h a) b) \<or> fst (v_nextSpawnedJob vt h a) = Some b)
           \<longrightarrow> (\<forall>p\<in>set ps. isSpawned (h' p))))
   \<and> (spawn_loop vt iInd jm = Some jm1 \<and> iInd < length (m_vspJobs jm) \<longrightarrow>
        (\<exists>qs. spec_spawned vt (m_vspJobs jm ! iInd) (heap jm) qs = Some (heap jm1)))"
proof (intro conjI)
  show "sender < length (m_vThreads jm) \<and> jobIndex (m_vThreads jm ! sender) = int iInd
      \<and> iInd < length (m_vspJobs jm)
      \<and> spec_spawned vt (m_vspJobs jm ! iInd) (heap jm) ps = Some h' \<longrightarrow>
        spawn_loop vt iInd (jm\<lparr>m_iFinished := m_iFinished jm + 1\<rparr>) =
           Some (jm\<lparr>m_iFinished := m_iFinished jm + 1, heap := h',
                    m_quWaiting := m_quWaiting jm
                      @ [length (m_vspJobs jm) ..< length (m_vspJobs jm) + length ps],
                    m_vspJobs := m_vspJobs jm @ ps\<rparr>)
      \<and> handleJobFinished vt sender jm =
           handleJobFinished_rest vt sender iInd
             (jm\<lparr>m_iFinished := m_iFinished jm + 1,
                 m_quWaiting := m_quWaiting jm
                      @ [length (m_vspJobs jm) ..< length (m_vspJobs jm) + length ps],
                 m_vspJobs := m_vspJobs jm @ ps,
                 heap := v_cleanup vt h' (m_vspJobs jm ! iInd)\<rparr>)
      \<and> (handleJobFinished vt sender jm = Some jm2 \<longrightarrow> m_vspJobs jm2 = m_vspJobs jm @ ps)
      \<and> ((\<forall>h a b. isSpawned (h b) \<longrightarrow>
              isSpawned (snd (v_nextSpawnedJob vt h a) b) \<or> fst (v_nextSpawnedJob vt h a) = Some b)
           \<longrightarrow> (\<forall>p\<in>set ps. isSpawned (h' p)))"
  proof (intro impI, elim conjE, intro conjI impI)
    assume s: "sender < length (m_vThreads jm)"
      and t: "jobIndex (m_vThreads jm ! sender) = int iInd"
      and i: "iInd < length (m_vspJobs jm)"
      and d: "spec_spawned vt (m_vspJobs jm ! iInd) (heap jm) ps = Some h'"
    note a = handleJobFinished_after_drain [OF s t i d]
    show "spawn_loop vt iInd (jm\<lparr>m_iFinished := m_iFinished jm + 1\<rparr>) =
           Some (jm\<lparr>m_iFinished := m_iFinished jm + 1, heap := h',
                    m_quWaiting := m_quWaiting jm
                      @ [length (m_vspJobs jm) ..< length (m_vspJobs jm) + length ps],
                    m_vspJobs := m_vspJobs jm @ ps\<rparr>)"
      by (rule a(1))
    show "handleJobFinished vt sender jm =
           handleJobFinished_rest vt sender iInd
             (jm\<lparr>m_iFinished := m_iFinished jm + 1,
                 m_quWaiting := m_quWaiting jm
                      @ [length (m_vspJobs jm) ..< length (m_vspJobs jm) + length ps],
                 m_vspJobs := m_vspJobs jm @ ps,
                 heap := v_cleanup vt h' (m_vspJobs jm ! iInd)\<rparr>)"
      by (rule a(2))
    show "m_vspJobs jm2 = m_vspJobs jm @ ps" if "handleJobFinished vt sender jm = Some jm2"
      using handleJobFinished_rest_keeps_jobs [OF that [unfolded a(2)]] by simp
    show "\<forall>p\<in>set ps. isSpawned (h' p)"
      if "\<forall>h a b. isSpawned (h b) \<longrightarrow>
              isSpawned (snd (v_nextSpawnedJob vt h a) b) \<or> fst (v_nextSpawnedJob vt h a) = Some b"
      using spec_spawned_marks [OF d that] by (rule conjunct1)
  qed
  show "spawn_loop vt iInd jm = Some jm1 \<and> iInd < length (m_vspJobs jm) \<longrightarrow>
        (\<exists>qs. spec_spawned vt (m_vspJobs jm ! iInd) (heap jm) qs = Some (heap jm1))"
    using spawn_loop_only_after_null [of vt iInd jm jm1] by blast
qed

theorem handleJobFinished_drains_spawned_before_cleanup_witness:
  "spec_spawned TestJobSpawned_vtable 0 (heap spawner_running) [1, 2] = Some spawner_store
   \<and> handleJobFinished TestJobSpawned_vtable 0 spawner_running = Some spawner_done
   \<and> m_vspJobs spawner_done = [0, 1, 2]
   \<and> isSpawned (spawner_store 1) \<and> isSpawned (spawner_store 2)
   \<and> spawn_loop TestJobSpawned_vtable 0 (spawner_running\<lparr>m_iFinished := 1\<rparr>) =
        Some (spawner_running\<lparr>m_iFinished := 1, heap := spawner_store,
                              m_quWaiting := [1, 2], m_vspJobs := [0, 1, 2]\<rparr>)
   \<and> (\<exists>qs. spec_spawned TestJobSpawned_vtable 0 (heap spawner_running) qs = Some spawner_store)"
proof -
  have "spec_spawned TestJobSpawned_vtable 0 (heap spawner_running) [1, 2] \<noteq> None"
    by code_simp
  then have d: "spec_spawned TestJobSpawned_vtable 0 (heap spawner_running) [1, 2] = Some spawner_store"
    by (auto simp add: spawner_store_def)
  have "handleJobFinished TestJobSpawned_vtable 0 spawner_running \<noteq> None"
    by code_simp
  then have f: "handleJobFinished TestJobSpawned_vtable 0 spawner_running = Some spawner_done"
    by (auto simp add: spawner_done_def)
  have v: "m_vspJobs spawner_running = [0]" "m_quWaiting spawner_running = []"
    "m_iFinished spawner_running = 0"
    "0 < length (m_vThreads spawner_running)"
    "jobIndex (m_vThreads spawner_running ! 0) = int 0"
    by code_simp+
  have h: "0 < length (m_vThreads spawner_running)
      \<and> jobIndex (m_vThreads spawner_running ! 0) = int 0
      \<and> 0 < length (m_vspJobs spawner_running)
      \<and> spec_spawned TestJobSpawned_vtable (m_vspJobs spawner_running ! 0) (heap spawner_running) [1, 2]
          = Some spawner_store"
    using v d by simp
  let ?D = "spawner_running\<lparr>m_iFinished := 1, heap := spawner_store,
                              m_quWaiting := [1, 2], m_vspJobs := [0, 1, 2]\<rparr>"
  note t = handleJobFinished_drains_spawned_before_cleanup
    [of 0 spawner_running 0 TestJobSpawned_vtable "[1, 2]" spawner_store spawner_done]
  note t1 = conjunct1 [OF t, rule_format, OF h]
  have l: "spawn_loop TestJobSpawned_vtable 0 (spawner_running\<lparr>m_iFinished := 1\<rparr>) = Some ?D"
    using conjunct1 [OF t1] by (simp add: v)
  have j: "m_vspJobs spawner_done = [0, 1, 2]"
    using conjunct1 [OF conjunct2 [OF conjunct2 [OF t1]]] f by (simp add: v)
  have m: "\<forall>p\<in>set [1, 2]. isSpawned (spawner_store p)"
    using conjunct2 [OF conjunct2 [OF conjunct2 [OF t1]]] TestJobSpawned_keeps_spawned_flags
    by blast
  then have m1: "isSpawned (spawner_store 1)" and m2: "isSpawned (spawner_store 2)"
    by simp_all
  have c: "spawn_loop TestJobSpawned_vtable 0 (spawner_running\<lparr>m_iFinished := 1\<rparr>) = Some ?D
      \<and> 0 < length (m_vspJobs (spawner_running\<lparr>m_iFinished := 1\<rparr>))"
    using l v by simp
  note t2 = conjunct2 [OF handleJobFinished_drains_spawned_before_cleanup
    [of 0 "spawner_running\<lparr>m_iFinished := 1\<rparr>" 0 TestJobSpawned_vtable "[1, 2]" spawner_store
        spawner_done ?D], rule_format, OF c]
  have e: "\<exists>qs. spec_spawned TestJobSpawned_vtable 0 (heap spawner_running) qs = Some spawner_store"
    using t2 by (simp add: v)
  from d f j m1 m2 l e show ?thesis by (intro conjI)
qed

subsection \<open>Runs of the manager\<close>

text \<open>
  C1. The code emits a terminal signal twice in one run. In the run of the manager
  with two threads, four jobs and no allowed errors, job 0 fails while job 1 still
  runs, so the tick for job 0 finds the error cap exceeded with one job running and
  emits nothing. When job 1 ends, the running count is 0, two jobs wait and two
  threads are idle: \<open>handleJobFinished()\<close> calls \<open>checkNext()\<close> twice, and each
  call sets the status to Error and emits \<open>signalError(jmeTooManyErrors)\<close>.
\<close>

theorem error_signal_emitted_twice_in_one_tick:
  "map_option m_iRunning run_job1_done = Some 0
   \<and> map_option emitted run_job1_done
       = Some [signalError jmeTooManyErrors, signalError jmeTooManyErrors]"
  by code_simp

text \<open>
  C3. \<open>addThreads()\<close> starts a waiting job although the error cap is exceeded.
  In the same run, after job 0 has failed (one error, none allowed, job 1 still
  running, two jobs started, the jobs 2 and 3 waiting), \<open>addThreads(1)\<close> calls
  \<open>startNext()\<close>, which does not look at the errors: afterwards three jobs are
  started, two are running and only job 3 waits.
\<close>

theorem job_started_after_error_cap_exceeded:
  "map_option (\<lambda>jm. (m_iAllowedErrors jm, m_iErrors jm, m_iRunning jm, m_iStarted jm, m_quWaiting jm))
      run_job0_failed = Some (0, 1, 1, 2, [2, 3])
   \<and> map_option (\<lambda>jm. (m_iAllowedErrors jm, m_iErrors jm, m_iRunning jm, m_iStarted jm, m_quWaiting jm))
      run_thread_added = Some (0, 1, 2, 3, [3])"
  by code_simp

text \<open>
  C6. \<open>clear()\<close> leaves the count of finished jobs as it was. The manager with
  one thread and one job is run to its end (status Finished, one finished job);
  after \<open>clear()\<close> the job table is empty, \<open>jobCount()\<close> is 0, and
  \<open>finishedCount()\<close> still returns 1.
\<close>

theorem clear_keeps_finished_count:
  "map_option jm_isFinished one_job_done = Some True
   \<and> map_option finishedCount one_job_done = Some 1
   \<and> map_option jobCount one_job_cleared = Some 0
   \<and> map_option finishedCount one_job_cleared = Some 1"
  by code_simp

section \<open>Properties of AbstractSessionManager\<close>






end
